theory Spec2Isabelle
  imports Complex_Main
begin

section \<open>SERP clustering: the model of \<^verbatim>\<open>src/cluster.ts\<close>\<close>

text \<open>
  A JavaScript string is a sequence of UTF-16 code units. It is modelled as a \<open>string\<close>
  (a \<open>char list\<close>) in which every \<open>char\<close> stands for the code unit of the same value, so the
  model covers the strings whose code units are below 256 (ASCII and Latin-1), and
  \<open>length\<close>, \<open>take\<close> and indexing count what \<^verbatim>\<open>length\<close> and \<^verbatim>\<open>slice\<close> count.
\<close>

subsection \<open>String primitives\<close>

definition is_digit :: "char \<Rightarrow> bool" where
  "is_digit c \<longleftrightarrow> 48 \<le> (of_char c :: nat) \<and> (of_char c :: nat) \<le> 57"

definition is_lower :: "char \<Rightarrow> bool" where
  "is_lower c \<longleftrightarrow> 97 \<le> (of_char c :: nat) \<and> (of_char c :: nat) \<le> 122"

text \<open>The white space of \<^verbatim>\<open>String.prototype.trim\<close> and of \<^verbatim>\<open>parseInt\<close> below code unit 256:
  TAB, LF, VT, FF, CR, SPACE and NBSP.\<close>

definition is_js_space :: "char \<Rightarrow> bool" where
  "is_js_space c \<longleftrightarrow> (of_char c :: nat) \<in> {9, 10, 11, 12, 13, 32, 160}"

definition trim :: "string \<Rightarrow> string" where
  "trim s = rev (dropWhile is_js_space (rev (dropWhile is_js_space s)))"

text \<open>\<^verbatim>\<open>toLowerCase\<close>: A-Z and the Latin-1 capitals U+00C0..U+00DE (without the
  multiplication sign U+00D7) move up by 32; every other code unit below 256 is unchanged.\<close>

definition toLowerCase_char :: "char \<Rightarrow> char" where
  "toLowerCase_char c =
     (let n = (of_char c :: nat) in
      if (65 \<le> n \<and> n \<le> 90) \<or> (192 \<le> n \<and> n \<le> 222 \<and> n \<noteq> 215)
      then char_of (n + 32) else c)"

definition toLowerCase :: "string \<Rightarrow> string" where
  "toLowerCase s = map toLowerCase_char s"

text \<open>\<^verbatim>\<open>s.split(sep)\<close> for a one-character separator: never the empty array.\<close>

fun split_str :: "char \<Rightarrow> string \<Rightarrow> string list" where
  "split_str sep [] = [[]]"
| "split_str sep (c # cs) =
     (if c = sep then [] # split_str sep cs
      else (case split_str sep cs of
              [] \<Rightarrow> [[c]]
            | w # ws \<Rightarrow> (c # w) # ws))"

text \<open>\<^verbatim>\<open>parts.join(sep)\<close>.\<close>

fun join_str :: "string \<Rightarrow> string list \<Rightarrow> string" where
  "join_str sep [] = []"
| "join_str sep [x] = x"
| "join_str sep (x # y # ys) = x @ sep @ join_str sep (y # ys)"

text \<open>\<^verbatim>\<open>parseInt(s, 10)\<close>: leading white space is skipped, one sign is read, then the longest
  run of decimal digits; \<open>None\<close> is \<^verbatim>\<open>NaN\<close>. The value is the exact integer (the source holds
  its nearest double, which compares with 10 in the same way).\<close>

definition digit_val :: "char \<Rightarrow> int" where
  "digit_val c = int (of_char c) - 48"

definition parseInt10 :: "string \<Rightarrow> int option" where
  "parseInt10 input =
     (let S = dropWhile is_js_space input;
          sign = (case S of c # _ \<Rightarrow> (if c = CHR ''-'' then - 1 else 1) | [] \<Rightarrow> (1::int));
          S' = (case S of c # cs \<Rightarrow> (if c = CHR ''+'' \<or> c = CHR ''-'' then cs else S) | [] \<Rightarrow> S);
          Z = takeWhile is_digit S'
      in if Z = [] then None
         else Some (sign * foldl (\<lambda>a c. 10 * a + digit_val c) 0 Z))"

subsection \<open>Insertion-ordered \<^verbatim>\<open>Map\<close> and \<^verbatim>\<open>Set\<close>\<close>

text \<open>A \<^verbatim>\<open>Map\<close> is the list of its entries in insertion order, with distinct keys;
  \<^verbatim>\<open>set\<close> on a present key replaces the value where the entry stands.\<close>

definition map_has :: "('k \<times> 'v) list \<Rightarrow> 'k \<Rightarrow> bool" where
  "map_has m k \<longleftrightarrow> k \<in> fst ` set m"

fun map_set :: "('k \<times> 'v) list \<Rightarrow> 'k \<Rightarrow> 'v \<Rightarrow> ('k \<times> 'v) list" where
  "map_set [] k v = [(k, v)]"
| "map_set ((k', v') # m) k v =
     (if k' = k then (k, v) # m else (k', v') # map_set m k v)"

text \<open>\<^verbatim>\<open>m.get(k)!.push(u)\<close>: the array stored under \<open>k\<close> grows by one element.\<close>

definition map_push :: "('k \<times> 'v list) list \<Rightarrow> 'k \<Rightarrow> 'v \<Rightarrow> ('k \<times> 'v list) list" where
  "map_push m k u = map (\<lambda>(k', us). if k' = k then (k', us @ [u]) else (k', us)) m"

text \<open>\<^verbatim>\<open>new Set(array)\<close>: the elements in the order of their first occurrence;
  \<^verbatim>\<open>new Set(undefined)\<close> is the empty set.\<close>

definition js_set :: "'a list \<Rightarrow> 'a list" where
  "js_set xs = rev (remdups (rev xs))"

definition set_add :: "'a list \<Rightarrow> 'a \<Rightarrow> 'a list" where
  "set_add s x = (if x \<in> set s then s else s @ [x])"

type_synonym SerpData = "(string \<times> string list) list"

definition get_urls :: "SerpData \<Rightarrow> string \<Rightarrow> string list" where
  "get_urls serpData kw = (case map_of serpData kw of Some urls \<Rightarrow> urls | None \<Rightarrow> [])"

subsection \<open>loadSerpData\<close>

text \<open>A parsed CSV record; the CSV parser itself is a library outside the repository.\<close>

record Row =
  keyword :: string
  position :: string
  url :: string

definition load_row :: "SerpData \<Rightarrow> Row \<Rightarrow> SerpData" where
  "load_row serpData row =
     (let kw = trim (keyword row);
          u = trim (url row);
          pos = (case parseInt10 (position row) of None \<Rightarrow> 0 | Some n \<Rightarrow> n)
      in if pos \<le> 10
         then map_push (if \<not> map_has serpData kw then map_set serpData kw [] else serpData) kw u
         else serpData)"

definition loadSerpData :: "Row list \<Rightarrow> SerpData" where
  "loadSerpData records = foldl load_row [] records"

subsection \<open>calculateUrlOverlap\<close>

text \<open>\<open>overlapScore\<close> is a JavaScript number: the field holds the rational value of the
  double.\<close>

record OverlapData =
  sharedUrls :: "string list"
  count :: int
  overlapScore :: rat

type_synonym OverlapMatrix = "(string \<times> OverlapData) list"

definition combinations :: "'a list \<Rightarrow> ('a \<times> 'a) list" where
  "combinations items =
     concat (map (\<lambda>i. map (\<lambda>j. (items ! i, items ! j)) [i + 1 ..< length items])
                 [0 ..< length items])"

definition pair_key :: "string \<Rightarrow> string \<Rightarrow> string" where
  "pair_key kw1 kw2 = kw1 @ ''|'' @ kw2"

text \<open>The quotient \<^verbatim>\<open>a / b\<close> of two integers \<open>0 < a \<le> b < 2^53\<close> as JavaScript computes
  it: the IEEE 754 binary64 number nearest to the exact quotient, ties to the even
  significand. \<open>scale2 a b\<close> is the least \<open>k\<close> with \<open>b \<le> a * 2^k\<close>, so the exact quotient
  times \<open>2^(k + 52)\<close> lies in \<open>[2^52, 2^53)\<close> and is rounded to a 53-bit significand. The
  value is held as the rational that the double denotes. \<open>calculateUrlOverlap\<close> divides
  only such integers: a positive number of shared URLs by the smaller of two set sizes.\<close>

function scale2 :: "nat \<Rightarrow> nat \<Rightarrow> nat" where
  "scale2 a b = (if a = 0 \<or> b \<le> a then 0 else Suc (scale2 (2 * a) b))"
  by pat_completeness auto
termination
  by (relation "measure (\<lambda>(a, b). b - a)") auto

declare scale2.simps [simp del]

definition nearest_even :: "nat \<Rightarrow> nat \<Rightarrow> nat" where
  "nearest_even n d =
     (let f = n div d; r = n mod d
      in if 2 * r < d then f
         else if d < 2 * r then f + 1
         else if even f then f else f + 1)"

definition double_div :: "nat \<Rightarrow> nat \<Rightarrow> rat" where
  "double_div a b =
     (let k = scale2 a b + 52
      in of_nat (nearest_even (a * 2 ^ k) b) / 2 ^ k)"

definition overlap_pair :: "SerpData \<Rightarrow> OverlapMatrix \<Rightarrow> string \<times> string \<Rightarrow> OverlapMatrix" where
  "overlap_pair serpData overlapMatrix p =
     (let urls1 = js_set (get_urls serpData (fst p));
          urls2 = js_set (get_urls serpData (snd p));
          shared = filter (\<lambda>u. u \<in> set urls2) urls1;
          sharedCount = length shared
      in if sharedCount > 0
         then map_set overlapMatrix (pair_key (fst p) (snd p))
                \<lparr>sharedUrls = shared, count = int sharedCount,
                 overlapScore = double_div sharedCount (min (length urls1) (length urls2))\<rparr>
         else overlapMatrix)"

definition calculateUrlOverlap :: "SerpData \<Rightarrow> OverlapMatrix" where
  "calculateUrlOverlap serpData =
     foldl (overlap_pair serpData) [] (combinations (map fst serpData))"

subsection \<open>clusterKeywords\<close>

text \<open>A cluster member is a JavaScript value: \<open>Some s\<close> is the string \<open>s\<close> and \<open>None\<close> is
  \<^verbatim>\<open>undefined\<close>, which the destructuring \<^verbatim>\<open>[kw1, kw2] = key.split("|")\<close> yields for a
  missing second segment.\<close>

type_synonym member = "string option"

definition split_key :: "string \<Rightarrow> member \<times> member" where
  "split_key key =
     (case split_str CHR ''|'' key of
        [] \<Rightarrow> (None, None)
      | [a] \<Rightarrow> (Some a, None)
      | a # b # _ \<Rightarrow> (Some a, Some b))"

record ClusterState =
  clusters :: "member list list"
  assigned :: "member list"

fun findClusterIdx :: "member list list \<Rightarrow> member \<Rightarrow> member \<Rightarrow> nat option" where
  "findClusterIdx [] kw1 kw2 = None"
| "findClusterIdx (c # cs) kw1 kw2 =
     (if kw1 \<in> set c \<or> kw2 \<in> set c then Some 0
      else map_option Suc (findClusterIdx cs kw1 kw2))"

definition cluster_pair :: "ClusterState \<Rightarrow> string \<Rightarrow> ClusterState" where
  "cluster_pair st key =
     (let kw1 = fst (split_key key); kw2 = snd (split_key key)
      in \<lparr>clusters =
            (case findClusterIdx (clusters st) kw1 kw2 of
               Some i \<Rightarrow> (clusters st)[i := set_add (set_add (clusters st ! i) kw1) kw2]
             | None \<Rightarrow> clusters st @ [js_set [kw1, kw2]]),
          assigned = set_add (set_add (assigned st) kw1) kw2\<rparr>)"

text \<open>\<^verbatim>\<open>Array.prototype.sort\<close> is stable; the comparator \<^verbatim>\<open>b.count - a.count\<close> orders by
  count, largest first.\<close>

definition sortedPairs :: "OverlapMatrix \<Rightarrow> (string \<times> OverlapData) list" where
  "sortedPairs overlapMatrix = sort_key (\<lambda>e. - count (snd e)) overlapMatrix"

fun greedy_loop :: "int \<Rightarrow> (string \<times> OverlapData) list \<Rightarrow> ClusterState \<Rightarrow> ClusterState" where
  "greedy_loop minOverlap [] st = st"
| "greedy_loop minOverlap (e # rest) st =
     (if count (snd e) < minOverlap then st
      else greedy_loop minOverlap rest (cluster_pair st (fst e)))"

definition greedy_pass :: "OverlapMatrix \<Rightarrow> int \<Rightarrow> ClusterState" where
  "greedy_pass overlapMatrix minOverlap =
     greedy_loop minOverlap (sortedPairs overlapMatrix) \<lparr>clusters = [], assigned = []\<rparr>"

definition clusterKeywords :: "SerpData \<Rightarrow> OverlapMatrix \<Rightarrow> int \<Rightarrow> member list list" where
  "clusterKeywords serpData overlapMatrix minOverlap =
     (let st = greedy_pass overlapMatrix minOverlap
      in clusters st @
         map (\<lambda>kw. [Some kw]) (filter (\<lambda>kw. Some kw \<notin> set (assigned st)) (map fst serpData)))"

text \<open>The default value of the parameter \<^verbatim>\<open>minOverlap\<close>.\<close>

definition clusterKeywords_default :: "SerpData \<Rightarrow> OverlapMatrix \<Rightarrow> member list list" where
  "clusterKeywords_default serpData overlapMatrix = clusterKeywords serpData overlapMatrix 3"

subsection \<open>generateSlug\<close>

definition slug_char :: "char \<Rightarrow> bool" where
  "slug_char c \<longleftrightarrow> is_lower c \<or> is_digit c \<or> c = CHR ''-''"

definition collapse :: "string \<Rightarrow> string" where
  "collapse s = join_str ''-'' (filter (\<lambda>seg. seg \<noteq> []) (split_str CHR ''-'' s))"

definition slug_clean :: "string \<Rightarrow> string" where
  "slug_clean text =
     collapse (filter slug_char
       (map (\<lambda>c. if c = CHR '' '' then CHR ''-'' else c) (toLowerCase text)))"

definition generateSlug :: "string \<Rightarrow> string" where
  "generateSlug text = take 60 (slug_clean text)"

subsection \<open>saveOverlapMatrix: the keyword columns\<close>

text \<open>\<^verbatim>\<open>String(value)\<close> on a member, and \<^verbatim>\<open>escapeCSV\<close>.\<close>

definition to_String :: "member \<Rightarrow> string" where
  "to_String m = (case m of Some s \<Rightarrow> s | None \<Rightarrow> ''undefined'')"

definition escapeCSV :: "member \<Rightarrow> string" where
  "escapeCSV v =
     (let str = to_String v
      in if CHR '','' \<in> set str \<or> CHR 0x22 \<in> set str \<or> CHR 0x0A \<in> set str
         then [CHR 0x22] @ concat (map (\<lambda>c. if c = CHR 0x22 then [c, c] else [c]) str) @ [CHR 0x22]
         else str)"

text \<open>The first two fields of every row that \<^verbatim>\<open>saveOverlapMatrix\<close> writes.\<close>

definition saveOverlapMatrix_keywords :: "OverlapMatrix \<Rightarrow> (string \<times> string) list" where
  "saveOverlapMatrix_keywords overlapMatrix =
     map (\<lambda>e. (escapeCSV (fst (split_key (fst e))), escapeCSV (snd (split_key (fst e)))))
         overlapMatrix"

subsection \<open>The four-keyword scenario\<close>

text \<open>Keywords A, B and C rank the URL lists \<open>ua\<close>, \<open>ub\<close> and \<open>uc\<close>; keyword D ranks \<open>ud\<close>.\<close>

definition scenario :: "string list \<Rightarrow> string list \<Rightarrow> string list \<Rightarrow> string list \<Rightarrow> SerpData" where
  "scenario ua ub uc ud = [(''A'', ua), (''B'', ub), (''C'', uc), (''D'', ud)]"

subsection \<open>Well-formed segment lists\<close>

text \<open>The segments that \<^verbatim>\<open>split\<close> and \<^verbatim>\<open>filter\<close> leave: none is empty, none holds the separator.\<close>

definition segs_ok :: "char \<Rightarrow> string list \<Rightarrow> bool" where
  "segs_ok sep segs \<longleftrightarrow> (\<forall>seg \<in> set segs. seg \<noteq> [] \<and> sep \<notin> set seg)"

subsection \<open>Notions used by the statements\<close>

text \<open>The entries that the greedy loop processes before it stops: the longest prefix of the
  sorted entries whose counts reach the threshold.\<close>

definition qualifying :: "OverlapMatrix \<Rightarrow> int \<Rightarrow> (string \<times> OverlapData) list" where
  "qualifying overlapMatrix minOverlap =
     takeWhile (\<lambda>e. minOverlap \<le> count (snd e)) (sortedPairs overlapMatrix)"

text \<open>The two values that the loop recovers from a key.\<close>

definition pair_members :: "string \<Rightarrow> member set" where
  "pair_members key = {fst (split_key key), snd (split_key key)}"

definition no_bar :: "SerpData \<Rightarrow> bool" where
  "no_bar serpData \<longleftrightarrow> (\<forall>kw \<in> set (map fst serpData). CHR ''|'' \<notin> set kw)"

subsection \<open>The loader, as the specification words it\<close>

text \<open>A row is kept when its position fails to parse or parses to an integer of at most 10.\<close>

definition row_included :: "Row \<Rightarrow> bool" where
  "row_included row \<longleftrightarrow>
     (case parseInt10 (position row) of None \<Rightarrow> True | Some n \<Rightarrow> n \<le> 10)"

text \<open>The trimmed URLs of the kept rows of a keyword, in row order.\<close>

definition urls_of :: "Row list \<Rightarrow> string \<Rightarrow> string list" where
  "urls_of rows kw =
     map (\<lambda>r. trim (url r)) (filter (\<lambda>r. row_included r \<and> trim (keyword r) = kw) rows)"

subsection \<open>Sample inputs\<close>

text \<open>Keyword b shares five URLs with a and four with each of c and d, which share five.\<close>

definition bridge_map :: SerpData where
  "bridge_map =
     [(''a'', [''p1'', ''p2'', ''p3'', ''p4'', ''p5'']),
      (''b'', [''p1'', ''p2'', ''p3'', ''p4'', ''p5'', ''q1'', ''q2'', ''q3'', ''q4'']),
      (''c'', [''q1'', ''q2'', ''q3'', ''q4'', ''q5'']),
      (''d'', [''q1'', ''q2'', ''q3'', ''q4'', ''q5''])]"

text \<open>A keyword that contains the separator.\<close>

definition bar_map :: SerpData where
  "bar_map = [(''a|b'', [''u1'', ''u2'', ''u3'']), (''c'', [''u1'', ''u2'', ''u3''])]"

definition two_clusters :: ClusterState where
  "two_clusters =
     \<lparr>clusters = [[Some ''a'', Some ''b''], [Some ''c'', Some ''d'']],
      assigned = [Some ''a'', Some ''b'', Some ''c'', Some ''d'']\<rparr>"

definition sample_rows :: "Row list" where
  "sample_rows =
     [\<lparr>keyword = '' a '', position = ''1'', url = ''u1''\<rparr>,
      \<lparr>keyword = ''b'', position = ''11'', url = ''u2''\<rparr>,
      \<lparr>keyword = ''a'', position = ''x'', url = ''u3 ''\<rparr>,
      \<lparr>keyword = ''c'', position = '' -3rd'', url = ''u4''\<rparr>]"



subsection \<open>Clusters that share a member\<close>

text \<open>The number of clusters that hold \<open>x\<close>.\<close>

definition occurrences :: "'a list list \<Rightarrow> 'a \<Rightarrow> nat" where
  "occurrences cs x = length (filter (\<lambda>c. x \<in> set c) cs)"



section \<open>Basic facts about the containers\<close>

lemma set_js_set [simp]: "set (js_set xs) = set xs"
  by (simp add: js_set_def)

lemma distinct_js_set [simp]: "distinct (js_set xs)"
  by (simp add: js_set_def)

lemma length_js_set: "length (js_set xs) = card (set xs)"
  using distinct_card [of "js_set xs"] by simp

lemma combinations_Cons: "combinations (x # xs) = map (Pair x) xs @ combinations xs"
proof -
  define F where "F = (\<lambda>i. map (\<lambda>j. ((x # xs) ! i, (x # xs) ! j)) [i + 1 ..< length (x # xs)])"
  define G where "G = (\<lambda>i. map (\<lambda>j. (xs ! i, xs ! j)) [i + 1 ..< length xs])"
  have a: "[0 ..< length (x # xs)] = 0 # map Suc [0 ..< length xs]"
    by (simp add: upt_conv_Cons map_Suc_upt del: upt_Suc)
  have sh: "\<And>i. [Suc i ..< Suc (length xs)] = map Suc [i ..< length xs]"
    by (simp add: map_Suc_upt del: upt_Suc)
  have b: "F 0 = map (Pair x) xs"
  proof -
    have "F 0 = map (\<lambda>j. (x, xs ! j)) [0 ..< length xs]"
      unfolding F_def by (simp add: sh comp_def del: upt_Suc)
    also have "\<dots> = map (Pair x) (map (\<lambda>j. xs ! j) [0 ..< length xs])"
      by (simp add: comp_def del: upt_Suc)
    also have "\<dots> = map (Pair x) xs"
      by (simp add: map_nth)
    finally show ?thesis .
  qed
  have c: "F (Suc i) = G i" for i
    unfolding F_def G_def by (simp add: sh comp_def del: upt_Suc)
  have "combinations (x # xs) = concat (map F [0 ..< length (x # xs)])"
    unfolding combinations_def F_def ..
  also have "\<dots> = F 0 @ concat (map (\<lambda>i. F (Suc i)) [0 ..< length xs])"
    unfolding a by (simp add: comp_def del: upt_Suc)
  also have "\<dots> = map (Pair x) xs @ concat (map G [0 ..< length xs])"
    unfolding b c ..
  also have "concat (map G [0 ..< length xs]) = combinations xs"
    unfolding combinations_def G_def ..
  finally show ?thesis .
qed

lemma combinations_Nil [simp]: "combinations [] = []"
  by (simp add: combinations_def)

lemma combinations4: "combinations [a, b, c, d] = [(a, b), (a, c), (a, d), (b, c), (b, d), (c, d)]"
  by (simp add: combinations_Cons)

lemma filter_mem_all: "set xs \<subseteq> A \<Longrightarrow> filter (\<lambda>u. u \<in> A) xs = xs"
  by (induction xs) auto

lemma filter_mem_none: "set xs \<inter> A = {} \<Longrightarrow> filter (\<lambda>u. u \<in> A) xs = []"
  by (induction xs) auto

section \<open>The double quotient\<close>

lemma double_div_4_5: "double_div 4 5 = 3602879701896397 / 4503599627370496"
  by (simp add: double_div_def nearest_even_def Let_def scale2.simps)

lemma double_div_4_5_Suc:
  "double_div (Suc (Suc (Suc (Suc 0)))) (Suc (Suc (Suc (Suc (Suc 0))))) =
     3602879701896397 / 4503599627370496"
  using double_div_4_5 by (simp add: eval_nat_numeral)

lemma double_div_1_10: "double_div 1 10 = 3602879701896397 / 36028797018963968"
  by (simp add: double_div_def nearest_even_def Let_def scale2.simps)

lemma scale2_0: "a = 0 \<or> b \<le> a \<Longrightarrow> scale2 a b = 0"
  by (simp add: scale2.simps[of a b])

lemma scale2_Suc: "0 < a \<Longrightarrow> a < b \<Longrightarrow> scale2 a b = Suc (scale2 (2 * a) b)"
  by (simp add: scale2.simps[of a b])

lemma scale2_reach: "0 < a \<Longrightarrow> b \<le> a * 2 ^ scale2 a b"
proof (induction a b rule: scale2.induct)
  case (1 a b)
  show ?case
  proof (cases "b \<le> a")
    case True
    then show ?thesis by (simp add: scale2_0)
  next
    case False
    with 1 have "b \<le> (2 * a) * 2 ^ scale2 (2 * a) b" by simp
    with False 1(2) show ?thesis by (simp add: scale2_Suc mult.assoc)
  qed
qed

lemma scale2_tight: "0 < a \<Longrightarrow> a \<le> b \<Longrightarrow> a * 2 ^ scale2 a b < 2 * b"
proof (induction a b rule: scale2.induct)
  case (1 a b)
  show ?case
  proof (cases "b \<le> a")
    case True
    then have "scale2 a b = 0" by (simp add: scale2_0)
    with True 1(2,3) show ?thesis by simp
  next
    case False
    show ?thesis
    proof (cases "2 * a \<le> b")
      case True
      with False 1 have "(2 * a) * 2 ^ scale2 (2 * a) b < 2 * b" by simp
      with False 1(2) show ?thesis by (simp add: scale2_Suc mult.assoc)
    next
      case f: False
      then have "scale2 (2 * a) b = 0" by (simp add: scale2_0)
      with False f 1(2) show ?thesis by (simp add: scale2_Suc)
    qed
  qed
qed

lemma nearest_even_near:
  assumes "0 < d"
  shows "2 * (nearest_even n d * d) \<le> 2 * n + d \<and> 2 * n \<le> 2 * (nearest_even n d * d) + d"
proof -
  define q where "q = n div d"
  define r where "r = n mod d"
  have n: "n = q * d + r" by (simp add: q_def r_def)
  have r: "r < d" using assms by (simp add: r_def)
  have "(nearest_even n d = q \<and> 2 * r \<le> d) \<or> (nearest_even n d = q + 1 \<and> d \<le> 2 * r)"
    by (auto simp: nearest_even_def Let_def q_def r_def)
  then show ?thesis
  proof
    assume "nearest_even n d = q \<and> 2 * r \<le> d"
    then show ?thesis unfolding n by simp
  next
    assume "nearest_even n d = q + 1 \<and> d \<le> 2 * r"
    then show ?thesis unfolding n using r by (simp add: algebra_simps)
  qed
qed

lemma nearest_even_exact: "0 < d \<Longrightarrow> d dvd n \<Longrightarrow> nearest_even n d = n div d"
  by (auto simp: nearest_even_def Let_def)

lemma nearest_even_le:
  assumes "0 < d" "n \<le> c * d"
  shows "nearest_even n d \<le> c"
proof (cases "n div d < c")
  case True
  then show ?thesis by (auto simp: nearest_even_def Let_def)
next
  case False
  have "n div d \<le> c" using assms by (metis div_le_mono nonzero_mult_div_cancel_right less_numeral_extra(3))
  with False have e: "n div d = c" by simp
  have "c * d \<le> n" using e by (metis div_times_less_eq_dividend)
  with assms(2) have "n = c * d" by simp
  then have "d dvd n" by simp
  then show ?thesis using e assms(1) by (simp add: nearest_even_exact)
qed

lemma nearest_even_ge:
  assumes "0 < d" "c * d \<le> n"
  shows "c \<le> nearest_even n d"
proof -
  have "c \<le> n div d" using assms by (metis div_le_mono nonzero_mult_div_cancel_right less_numeral_extra(3))
  moreover have "n div d \<le> nearest_even n d" by (auto simp: nearest_even_def Let_def)
  ultimately show ?thesis by simp
qed

lemma double_div_self: "0 < a \<Longrightarrow> double_div a a = 1"
proof -
  assume a: "0 < a"
  have "nearest_even (a * 2 ^ 52) a = 2 ^ 52"
    using a by (simp add: nearest_even_exact)
  then show ?thesis by (simp add: double_div_def scale2_0)
qed

lemma double_div_mantissa:
  assumes "0 < a" "a \<le> b"
  shows "2 ^ 52 \<le> nearest_even (a * 2 ^ (scale2 a b + 52)) b
       \<and> nearest_even (a * 2 ^ (scale2 a b + 52)) b \<le> 2 ^ 53"
proof -
  have b: "0 < b" using assms by simp
  have "2 ^ 52 * b \<le> a * 2 ^ (scale2 a b + 52)"
    using scale2_reach[OF assms(1), of b] by (simp add: power_add)
  then have l: "2 ^ 52 \<le> nearest_even (a * 2 ^ (scale2 a b + 52)) b"
    using b by (intro nearest_even_ge) simp_all
  have "a * 2 ^ (scale2 a b + 52) \<le> 2 ^ 53 * b"
    using scale2_tight[OF assms] by (simp add: power_add)
  then have "nearest_even (a * 2 ^ (scale2 a b + 52)) b \<le> 2 ^ 53"
    using b by (intro nearest_even_le) simp_all
  with l show ?thesis by simp
qed

lemma double_div_pos:
  assumes "0 < a" "a \<le> b"
  shows "0 < double_div a b"
proof -
  have "(0::nat) < 2 ^ 52" by simp
  then have "0 < nearest_even (a * 2 ^ (scale2 a b + 52)) b"
    using double_div_mantissa[OF assms] by linarith
  then show ?thesis by (simp add: double_div_def Let_def)
qed

lemma double_div_le_1:
  assumes "0 < b" "a \<le> b"
  shows "double_div a b \<le> 1"
proof -
  let ?K = "scale2 a b + 52"
  have "a * 2 ^ ?K \<le> 2 ^ ?K * b" using assms(2) by simp
  then have "nearest_even (a * 2 ^ ?K) b \<le> 2 ^ ?K"
    using assms(1) by (intro nearest_even_le) simp_all
  then have "(of_nat (nearest_even (a * 2 ^ ?K) b) :: rat) \<le> of_nat (2 ^ ?K)"
    by (simp only: of_nat_le_iff)
  then show ?thesis by (simp add: double_div_def Let_def)
qed

lemma double_div_exact:
  assumes "0 < b" "b dvd a * 2 ^ (scale2 a b + 52)"
  shows "double_div a b = of_nat a / of_nat b"
proof -
  let ?K = "scale2 a b + 52"
  have "nearest_even (a * 2 ^ ?K) b = (a * 2 ^ ?K) div b"
    using assms by (simp add: nearest_even_exact)
  moreover have "(of_nat ((a * 2 ^ ?K) div b) :: rat) = of_nat (a * 2 ^ ?K) / of_nat b"
    using assms(2)
    by (metis dvd_def nonzero_mult_div_cancel_left of_nat_mult of_nat_eq_0_iff assms(1)
        less_numeral_extra(3))
  ultimately show ?thesis by (simp add: double_div_def Let_def)
qed

lemma double_div_error:
  assumes "0 < a" "a \<le> b"
  shows "\<bar>double_div a b - of_nat a / of_nat b\<bar> \<le> (of_nat a / of_nat b) / 2 ^ 53"
proof -
  let ?k = "scale2 a b"
  let ?K = "?k + 52"
  let ?m = "nearest_even (a * 2 ^ ?K) b"
  have b: "0 < b" using assms by simp
  have bb: "(0::rat) < of_nat b" using b by simp
  from nearest_even_near[OF b, of "a * 2 ^ ?K"]
  have n1: "2 * (?m * b) \<le> 2 * (a * 2 ^ ?K) + b" and n2: "2 * (a * 2 ^ ?K) \<le> 2 * (?m * b) + b"
    by simp_all
  have r1: "2 * (of_nat ?m * of_nat b) \<le> 2 * (of_nat a * 2 ^ ?K) + (of_nat b :: rat)"
    using n1 by (metis (mono_tags, lifting) of_nat_le_iff of_nat_add of_nat_mult of_nat_numeral of_nat_power)
  have r2: "2 * (of_nat a * 2 ^ ?K) \<le> 2 * (of_nat ?m * of_nat b) + (of_nat b :: rat)"
    using n2 by (metis (mono_tags, lifting) of_nat_le_iff of_nat_add of_nat_mult of_nat_numeral of_nat_power)
  have d: "double_div a b - of_nat a / of_nat b =
      (of_nat ?m * of_nat b - of_nat a * 2 ^ ?K) / (2 ^ ?K * of_nat b)"
    using bb by (simp add: double_div_def Let_def field_simps)
  have abs1: "\<bar>of_nat ?m * of_nat b - of_nat a * 2 ^ ?K\<bar> \<le> (of_nat b :: rat) / 2"
    using r1 r2 by linarith
  have pos: "(0::rat) < 2 ^ ?K * of_nat b" using bb by simp
  have "\<bar>double_div a b - of_nat a / of_nat b\<bar> =
      \<bar>of_nat ?m * of_nat b - of_nat a * 2 ^ ?K\<bar> / (2 ^ ?K * of_nat b)"
    unfolding d using pos by (simp add: abs_divide abs_mult)
  also have "\<dots> \<le> (of_nat b / 2) / (2 ^ ?K * of_nat b)"
    by (rule divide_right_mono[OF abs1]) (use pos in simp)
  also have "\<dots> = 1 / (2 ^ ?k * 2 ^ 53)"
    using bb by (simp add: power_add)
  also have "\<dots> \<le> (of_nat a / of_nat b) / 2 ^ 53"
  proof -
    have "(of_nat b :: rat) \<le> of_nat (a * 2 ^ ?k)"
      using scale2_reach[OF assms(1), of b] by (simp only: of_nat_le_iff)
    then have "(of_nat b :: rat) \<le> of_nat a * 2 ^ ?k" by simp
    then have "1 / 2 ^ ?k \<le> (of_nat a :: rat) / of_nat b"
      using bb by (simp add: field_simps)
    then have "(1 / 2 ^ ?k) / 2 ^ 53 \<le> ((of_nat a :: rat) / of_nat b) / 2 ^ 53"
      by (rule divide_right_mono) simp
    then show ?thesis by (simp add: field_simps)
  qed
  finally show ?thesis .
qed

section \<open>The scenario of three keywords with equal SERPs and one apart\<close>

lemma scenario_overlap:
  assumes "set ua = U" "set ub = U" "set uc = U" "card U = 5" "set ud \<inter> U = {}"
  shows "calculateUrlOverlap (scenario ua ub uc ud) =
      [(''A|B'', \<lparr>sharedUrls = js_set ua, count = 5, overlapScore = 1\<rparr>),
       (''A|C'', \<lparr>sharedUrls = js_set ua, count = 5, overlapScore = 1\<rparr>),
       (''B|C'', \<lparr>sharedUrls = js_set ub, count = 5, overlapScore = 1\<rparr>)]"
proof -
  have l: "length (js_set ua) = 5" "length (js_set ub) = 5" "length (js_set uc) = 5"
    using assms by (simp_all add: length_js_set)
  have f: "filter (\<lambda>u. u \<in> U) (js_set ua) = js_set ua"
    "filter (\<lambda>u. u \<in> U) (js_set ub) = js_set ub"
    using assms by (simp_all add: filter_mem_all)
  have g: "filter (\<lambda>u. u \<in> set ud) (js_set ua) = []"
    "filter (\<lambda>u. u \<in> set ud) (js_set ub) = []"
    "filter (\<lambda>u. u \<in> set ud) (js_set uc) = []"
    using assms by (auto intro!: filter_mem_none)
  have n: "js_set ua \<noteq> []" "js_set ub \<noteq> []" "js_set uc \<noteq> []"
    using l by auto
  show ?thesis
    using assms(1-3) n
    by (simp add: calculateUrlOverlap_def scenario_def combinations4 overlap_pair_def
        get_urls_def pair_key_def l f g Let_def double_div_self)
qed

lemma scenario_clusters:
  "clusterKeywords (scenario ua ub uc ud)
     [(''A|B'', \<lparr>sharedUrls = sa, count = 5, overlapScore = 1\<rparr>),
      (''A|C'', \<lparr>sharedUrls = sa, count = 5, overlapScore = 1\<rparr>),
      (''B|C'', \<lparr>sharedUrls = sb, count = 5, overlapScore = 1\<rparr>)] 3 =
   [[Some ''A'', Some ''B'', Some ''C''], [Some ''D'']]"
  by (simp add: clusterKeywords_def greedy_pass_def sortedPairs_def cluster_pair_def
      split_key_def set_add_def js_set_def scenario_def Let_def)

text \<open>
  Claim C8. When the keywords A, B and C each rank the same five URLs (in any order, with
  or without repetitions) and D ranks five URLs that are disjoint from them,
  \<open>calculateUrlOverlap\<close> yields exactly the three entries A-B, A-C and B-C, each with count 5
  and overlap score 1, and \<open>clusterKeywords\<close> with threshold 3 returns the cluster
  {A, B, C} followed by the singleton {D}.
\<close>

theorem scenario_three_and_one:
  assumes "set ua = U" and "set ub = U" and "set uc = U" and "card U = 5"
    and "card (set ud) = 5" and "set ud \<inter> U = {}"
  shows "calculateUrlOverlap (scenario ua ub uc ud) =
           [(''A|B'', \<lparr>sharedUrls = js_set ua, count = 5, overlapScore = 1\<rparr>),
            (''A|C'', \<lparr>sharedUrls = js_set ua, count = 5, overlapScore = 1\<rparr>),
            (''B|C'', \<lparr>sharedUrls = js_set ub, count = 5, overlapScore = 1\<rparr>)]
       \<and> clusterKeywords (scenario ua ub uc ud) (calculateUrlOverlap (scenario ua ub uc ud)) 3 =
           [[Some ''A'', Some ''B'', Some ''C''], [Some ''D'']]"
  using scenario_overlap [OF assms(1-4) assms(6)] scenario_clusters by simp

theorem scenario_three_and_one_witness:
  "calculateUrlOverlap
     (scenario [''u1'', ''u2'', ''u3'', ''u4'', ''u5''] [''u5'', ''u4'', ''u3'', ''u2'', ''u1'']
        [''u1'', ''u2'', ''u3'', ''u4'', ''u5'', ''u1''] [''v1'', ''v2'', ''v3'', ''v4'', ''v5'']) =
     [(''A|B'', \<lparr>sharedUrls = [''u1'', ''u2'', ''u3'', ''u4'', ''u5''], count = 5, overlapScore = 1\<rparr>),
      (''A|C'', \<lparr>sharedUrls = [''u1'', ''u2'', ''u3'', ''u4'', ''u5''], count = 5, overlapScore = 1\<rparr>),
      (''B|C'', \<lparr>sharedUrls = [''u5'', ''u4'', ''u3'', ''u2'', ''u1''], count = 5, overlapScore = 1\<rparr>)]
   \<and> clusterKeywords
       (scenario [''u1'', ''u2'', ''u3'', ''u4'', ''u5''] [''u5'', ''u4'', ''u3'', ''u2'', ''u1'']
          [''u1'', ''u2'', ''u3'', ''u4'', ''u5'', ''u1''] [''v1'', ''v2'', ''v3'', ''v4'', ''v5''])
       (calculateUrlOverlap
         (scenario [''u1'', ''u2'', ''u3'', ''u4'', ''u5''] [''u5'', ''u4'', ''u3'', ''u2'', ''u1'']
            [''u1'', ''u2'', ''u3'', ''u4'', ''u5'', ''u1''] [''v1'', ''v2'', ''v3'', ''v4'', ''v5''])) 3 =
     [[Some ''A'', Some ''B'', Some ''C''], [Some ''D'']]"
proof -
  have u: "set [''u1'', ''u2'', ''u3'', ''u4'', ''u5''] = {''u1'', ''u2'', ''u3'', ''u4'', ''u5''}"
    "set [''u5'', ''u4'', ''u3'', ''u2'', ''u1''] = {''u1'', ''u2'', ''u3'', ''u4'', ''u5''}"
    "set [''u1'', ''u2'', ''u3'', ''u4'', ''u5'', ''u1''] = {''u1'', ''u2'', ''u3'', ''u4'', ''u5''}"
    by auto
  have c: "card {''u1'', ''u2'', ''u3'', ''u4'', ''u5''} = 5"
    "card (set [''v1'', ''v2'', ''v3'', ''v4'', ''v5'']) = 5"
    by simp_all
  have d: "set [''v1'', ''v2'', ''v3'', ''v4'', ''v5''] \<inter> {''u1'', ''u2'', ''u3'', ''u4'', ''u5''} = {}"
    by simp
  have j: "js_set [''u1'', ''u2'', ''u3'', ''u4'', ''u5''] = [''u1'', ''u2'', ''u3'', ''u4'', ''u5'']"
    "js_set [''u5'', ''u4'', ''u3'', ''u2'', ''u1''] = [''u5'', ''u4'', ''u3'', ''u2'', ''u1'']"
    by (simp_all add: js_set_def)
  show ?thesis
    using scenario_three_and_one [OF u c d] unfolding j .
qed

section \<open>Splitting and joining\<close>

lemma split_str_not_Nil [simp]: "split_str sep s \<noteq> []"
  by (induction s) (auto split: list.splits)

lemma split_str_no_sep: "seg \<in> set (split_str sep s) \<Longrightarrow> sep \<notin> set seg"
  by (induction s arbitrary: seg) (auto split: list.splits if_splits)

lemma split_str_chars: "seg \<in> set (split_str sep s) \<Longrightarrow> set seg \<subseteq> set s"
proof (induction s arbitrary: seg)
  case Nil
  then show ?case by simp
next
  case (Cons c cs)
  obtain w ws where w: "split_str sep cs = w # ws"
    by (cases "split_str sep cs") auto
  have "set w \<subseteq> set cs" "\<forall>t \<in> set ws. set t \<subseteq> set cs"
    using Cons.IH w by auto
  then show ?case using Cons.prems w by (auto split: if_splits)
qed

lemma join_str_Cons:
  "join_str sep (x # segs) = (if segs = [] then x else x @ sep @ join_str sep segs)"
  by (cases segs) auto

lemma split_str_append_no_sep:
  "sep \<notin> set x \<Longrightarrow> split_str sep (x @ s) = (x @ hd (split_str sep s)) # tl (split_str sep s)"
  by (induction x) (auto split: list.splits)

lemma split_str_no_sep_id: "sep \<notin> set x \<Longrightarrow> split_str sep x = [x]"
  by (induction x) (auto split: list.splits)

lemma split_join:
  "segs \<noteq> [] \<Longrightarrow> \<forall>seg \<in> set segs. sep \<notin> set seg \<Longrightarrow> split_str sep (join_str [sep] segs) = segs"
proof (induction segs)
  case Nil
  then show ?case by simp
next
  case (Cons x segs)
  show ?case
  proof (cases "segs = []")
    case True
    with Cons.prems show ?thesis by (simp add: split_str_no_sep_id)
  next
    case False
    with Cons have "split_str sep (join_str [sep] segs) = segs" by simp
    with Cons.prems False show ?thesis
      by (simp add: join_str_Cons split_str_append_no_sep)
  qed
qed

lemma join_str_snoc_empty: "segs \<noteq> [] \<Longrightarrow> join_str sep (segs @ [[]]) = join_str sep segs @ sep"
  by (induction sep segs rule: join_str.induct) auto

lemma set_join_str: "set (join_str sep segs) \<subseteq> set sep \<union> \<Union> (set ` set segs)"
  by (induction sep segs rule: join_str.induct) auto

lemma collapse_segs: "\<exists>segs. segs_ok CHR ''-'' segs \<and> collapse s = join_str ''-'' segs \<and> (\<forall>seg \<in> set segs. set seg \<subseteq> set s)"
  unfolding collapse_def segs_ok_def
  by (rule exI[of _ "filter (\<lambda>seg. seg \<noteq> []) (split_str CHR ''-'' s)"])
     (auto dest: split_str_no_sep split_str_chars)

lemma collapse_join: 
  assumes "segs_ok CHR ''-'' segs" shows "collapse (join_str ''-'' segs) = join_str ''-'' segs"
proof (cases "segs = []")
  case True
  then show ?thesis by (simp add: collapse_def)
next
  case False
  have "split_str CHR ''-'' (join_str ''-'' segs) = segs"
    using split_join[OF False, of "CHR ''-''"] assms by (simp add: segs_ok_def)
  moreover have "filter (\<lambda>seg. seg \<noteq> []) segs = segs"
    using assms by (auto simp: segs_ok_def intro: filter_True)
  ultimately show ?thesis by (simp add: collapse_def)
qed

lemma collapse_join_hyphen: 
  assumes "segs_ok CHR ''-'' segs" shows "collapse (join_str ''-'' segs @ ''-'') = join_str ''-'' segs"
proof (cases "segs = []")
  case True
  then show ?thesis by (simp add: collapse_def)
next
  case False
  have "split_str CHR ''-'' (join_str ''-'' (segs @ [[]])) = segs @ [[]]"
    using split_join[of "segs @ [[]]" "CHR ''-''"] assms by (simp add: segs_ok_def)
  then have "split_str CHR ''-'' (join_str ''-'' segs @ ''-'') = segs @ [[]]"
    using False by (simp add: join_str_snoc_empty)
  moreover have "filter (\<lambda>seg. seg \<noteq> []) segs = segs"
    using assms by (auto simp: segs_ok_def intro: filter_True)
  ultimately show ?thesis by (simp add: collapse_def)
qed

lemma take_join:
  "segs_ok sep segs \<Longrightarrow>
   \<exists>segs'. segs_ok sep segs' \<and> (\<forall>seg \<in> set segs'. set seg \<subseteq> \<Union> (set ` set segs)) \<and>
      (take n (join_str [sep] segs) = join_str [sep] segs' \<or>
       (segs' \<noteq> [] \<and> take n (join_str [sep] segs) = join_str [sep] segs' @ [sep]))"
proof (induction segs arbitrary: n)
  case Nil
  show ?case by (rule exI[of _ "[]"]) (simp add: segs_ok_def)
next
  case (Cons x rest)
  have okx: "x \<noteq> []" "sep \<notin> set x" and okr: "segs_ok sep rest"
    using Cons.prems by (auto simp: segs_ok_def)
  have single: "\<exists>segs'. segs_ok sep segs' \<and> (\<forall>seg \<in> set segs'. set seg \<subseteq> set x) \<and>
      take k x = join_str [sep] segs'" for k
  proof (cases "k = 0")
    case True
    then show ?thesis by (intro exI[of _ "[]"]) (simp add: segs_ok_def)
  next
    case False
    with okx show ?thesis
      by (intro exI[of _ "[take k x]"]) (auto simp: segs_ok_def dest: in_set_takeD)
  qed
  show ?case
  proof (cases "rest = []")
    case True
    with single[of n] show ?thesis by auto
  next
    case False
    then have j: "join_str [sep] (x # rest) = x @ [sep] @ join_str [sep] rest"
      by (simp add: join_str_Cons)
    consider "n \<le> length x" | "n = Suc (length x)" | "Suc (length x) < n"
      by linarith
    then show ?thesis
    proof cases
      case 1
      then have "take n (join_str [sep] (x # rest)) = take n x" using j by simp
      with single[of n] show ?thesis by auto
    next
      case 2
      then have "take n (join_str [sep] (x # rest)) = join_str [sep] [x] @ [sep]"
        using j by simp
      with okx show ?thesis
        by (intro exI[of _ "[x]"]) (auto simp: segs_ok_def)
    next
      case 3
      define m where "m = n - Suc (length x)"
      have tk: "take n (join_str [sep] (x # rest)) = x @ [sep] @ take m (join_str [sep] rest)"
      proof -
        have "n - length x = Suc m" using 3 by (simp add: m_def)
        then show ?thesis using j by simp
      qed
      from Cons.IH[OF okr, of m] obtain segs' where s: "segs_ok sep segs'"
        "\<forall>seg \<in> set segs'. set seg \<subseteq> \<Union> (set ` set rest)"
        "take m (join_str [sep] rest) = join_str [sep] segs' \<or>
         (segs' \<noteq> [] \<and> take m (join_str [sep] rest) = join_str [sep] segs' @ [sep])"
        by blast
      show ?thesis
      proof (cases "segs' = []")
        case True
        with s(3) have "take n (join_str [sep] (x # rest)) = join_str [sep] [x] @ [sep]"
          using tk by simp
        with okx show ?thesis
          by (intro exI[of _ "[x]"]) (auto simp: segs_ok_def)
      next
        case False
        have a: "segs_ok sep (x # segs')" using s(1) okx by (simp add: segs_ok_def)
        have b: "\<forall>seg \<in> set (x # segs'). set seg \<subseteq> \<Union> (set ` set (x # rest))"
          using s(2) by auto
        have c: "take n (join_str [sep] (x # rest)) = join_str [sep] (x # segs') \<or>
            (x # segs' \<noteq> [] \<and> take n (join_str [sep] (x # rest)) = join_str [sep] (x # segs') @ [sep])"
          using s(3) tk False by (auto simp: join_str_Cons)
        show ?thesis using a b c by blast
      qed
    qed
  qed
qed

lemma hd_join_str: "segs_ok sep segs \<Longrightarrow> segs \<noteq> [] \<Longrightarrow> hd (join_str [sep] segs) \<noteq> sep"
  by (cases segs) (auto simp: segs_ok_def join_str_Cons)

lemma join_str_Nil_iff: "segs_ok sep segs \<Longrightarrow> join_str [sep] segs = [] \<longleftrightarrow> segs = []"
  by (cases segs) (auto simp: segs_ok_def join_str_Cons)

lemma last_join_str: "segs_ok sep segs \<Longrightarrow> segs \<noteq> [] \<Longrightarrow> last (join_str [sep] segs) \<noteq> sep"
proof (induction segs)
  case Nil
  then show ?case by simp
next
  case (Cons x rest)
  then show ?case
    by (cases "rest = []") (auto simp: segs_ok_def join_str_Cons join_str_Nil_iff)
qed

lemma no_double_join:
  "segs_ok sep segs \<Longrightarrow> Suc i < length (join_str [sep] segs) \<Longrightarrow>
   \<not> (join_str [sep] segs ! i = sep \<and> join_str [sep] segs ! Suc i = sep)"
proof (induction segs arbitrary: i)
  case Nil
  then show ?case by simp
next
  case (Cons x rest)
  have okx: "x \<noteq> []" "sep \<notin> set x" and okr: "segs_ok sep rest"
    using Cons.prems by (auto simp: segs_ok_def)
  show ?case
  proof (cases "rest = []")
    case True
    with Cons.prems okx show ?thesis by (auto simp: nth_mem dest: Suc_lessD)
  next
    case False
    then have j: "join_str [sep] (x # rest) = x @ [sep] @ join_str [sep] rest"
      by (simp add: join_str_Cons)
    have h: "hd (join_str [sep] rest) \<noteq> sep" "join_str [sep] rest \<noteq> []"
      using hd_join_str[OF okr False] join_str_Nil_iff[OF okr] False by auto
    consider "i < length x" | "i = length x" | "length x < i" by linarith
    then show ?thesis
    proof cases
      case 1
      then have "join_str [sep] (x # rest) ! i = x ! i" using j by (simp add: nth_append)
      with 1 okx show ?thesis by (metis nth_mem)
    next
      case 2
      then have "join_str [sep] (x # rest) ! Suc i = hd (join_str [sep] rest)"
        using j h(2) by (simp add: nth_append hd_conv_nth)
      with h show ?thesis by simp
    next
      case 3
      define k where "k = i - Suc (length x)"
      have i: "i = Suc (length x) + k" using 3 by (simp add: k_def)
      have "join_str [sep] (x # rest) ! i = join_str [sep] rest ! k"
        "join_str [sep] (x # rest) ! Suc i = join_str [sep] rest ! Suc k"
        using j i by (simp_all add: nth_append)
      moreover have "Suc k < length (join_str [sep] rest)"
        using Cons.prems(2) j i by simp
      ultimately show ?thesis using Cons.IH[OF okr, of k] by simp
    qed
  qed
qed

section \<open>generateSlug\<close>

lemma lower_letters: "map char_of [97 ..< 123 :: nat] = ''abcdefghijklmnopqrstuvwxyz''"
  by (simp add: upt_rec char_of_def bit_Suc_0_iff)

lemma digit_chars: "map char_of [48 ..< 58 :: nat] = ''0123456789''"
  by (simp add: upt_rec char_of_def bit_Suc_0_iff)

lemma char_in_range:
  assumes "lo \<le> (of_char c :: nat)" "(of_char c :: nat) < hi"
  shows "c \<in> set (map char_of [lo ..< hi])"
proof -
  have "(of_char c :: nat) \<in> set [lo ..< hi]" using assms by simp
  then have "char_of (of_char c :: nat) \<in> char_of ` set [lo ..< hi]" by (rule imageI)
  then show ?thesis by simp
qed

lemma char_range_bounds:
  assumes "c \<in> set (map char_of [lo ..< hi])" "hi \<le> 256"
  shows "lo \<le> (of_char c :: nat) \<and> (of_char c :: nat) < hi"
proof -
  from assms(1) obtain n :: nat where n: "lo \<le> n" "n < hi" "c = char_of n" by auto
  then have "(of_char c :: nat) = n mod 256" by (simp add: of_char_of)
  then have "(of_char c :: nat) = n" using n(2) assms(2) by simp
  with n show ?thesis by simp
qed

lemma slug_alphabet:
  "''abcdefghijklmnopqrstuvwxyz0123456789-'' =
     map char_of [97 ..< 123 :: nat] @ map char_of [48 ..< 58 :: nat] @ ''-''"
  unfolding lower_letters digit_chars by simp

lemma slug_char_iff: "slug_char c \<longleftrightarrow> c \<in> set ''abcdefghijklmnopqrstuvwxyz0123456789-''"
proof -
  have l: "is_lower c \<longleftrightarrow> c \<in> set (map char_of [97 ..< 123 :: nat])"
  proof
    assume "is_lower c"
    then show "c \<in> set (map char_of [97 ..< 123 :: nat])"
      by (intro char_in_range) (simp_all add: is_lower_def)
  next
    assume "c \<in> set (map char_of [97 ..< 123 :: nat])"
    then have "97 \<le> (of_char c :: nat) \<and> (of_char c :: nat) < 123"
      by (rule char_range_bounds) simp
    then show "is_lower c" by (simp add: is_lower_def)
  qed
  have d: "is_digit c \<longleftrightarrow> c \<in> set (map char_of [48 ..< 58 :: nat])"
  proof
    assume "is_digit c"
    then show "c \<in> set (map char_of [48 ..< 58 :: nat])"
      by (intro char_in_range) (simp_all add: is_digit_def)
  next
    assume "c \<in> set (map char_of [48 ..< 58 :: nat])"
    then have "48 \<le> (of_char c :: nat) \<and> (of_char c :: nat) < 58"
      by (rule char_range_bounds) simp
    then show "is_digit c" by (simp add: is_digit_def)
  qed
  show ?thesis
    unfolding slug_alphabet slug_char_def l d by (simp only: set_append Un_iff) simp
qed

lemma slug_char_lower: "slug_char c \<Longrightarrow> toLowerCase_char c = c"
  by (auto simp: slug_char_def is_lower_def is_digit_def toLowerCase_char_def Let_def)

lemma slug_char_not_space: "slug_char c \<Longrightarrow> c \<noteq> CHR '' ''"
  by (auto simp: slug_char_def is_lower_def is_digit_def)

lemma slug_prepare_id:
  "\<forall>c \<in> set s. slug_char c \<Longrightarrow>
   filter slug_char (map (\<lambda>c. if c = CHR '' '' then CHR ''-'' else c) (toLowerCase s)) = s"
  by (induction s) (auto simp: toLowerCase_def slug_char_lower slug_char_not_space)

lemma slug_clean_segs:
  "\<exists>segs. segs_ok CHR ''-'' segs \<and> slug_clean s = join_str ''-'' segs \<and>
     (\<forall>seg \<in> set segs. \<forall>c \<in> set seg. slug_char c)"
proof -
  let ?t = "filter slug_char (map (\<lambda>c. if c = CHR '' '' then CHR ''-'' else c) (toLowerCase s))"
  obtain segs where s: "segs_ok CHR ''-'' segs" "collapse ?t = join_str ''-'' segs"
      "\<forall>seg \<in> set segs. set seg \<subseteq> set ?t"
    using collapse_segs[of ?t] by blast
  have "\<forall>seg \<in> set segs. \<forall>c \<in> set seg. slug_char c"
    using s(3) by auto
  with s(1,2) show ?thesis unfolding slug_clean_def by blast
qed

lemma generateSlug_segs:
  "\<exists>segs. segs_ok CHR ''-'' segs \<and> (\<forall>seg \<in> set segs. \<forall>c \<in> set seg. slug_char c) \<and>
     (generateSlug s = join_str ''-'' segs \<or>
      (segs \<noteq> [] \<and> generateSlug s = join_str ''-'' segs @ ''-''))"
proof -
  obtain segs where s: "segs_ok CHR ''-'' segs" "slug_clean s = join_str ''-'' segs"
     "\<forall>seg \<in> set segs. \<forall>c \<in> set seg. slug_char c"
    using slug_clean_segs by blast
  obtain segs' where t: "segs_ok CHR ''-'' segs'"
    "\<forall>seg \<in> set segs'. set seg \<subseteq> \<Union> (set ` set segs)"
    "take 60 (join_str ''-'' segs) = join_str ''-'' segs' \<or>
       (segs' \<noteq> [] \<and> take 60 (join_str ''-'' segs) = join_str ''-'' segs' @ ''-'')"
    using take_join[OF s(1), of 60] by auto
  have "\<forall>seg \<in> set segs'. \<forall>c \<in> set seg. slug_char c"
    using t(2) s(3) by blast
  with t(1,3) s(2) show ?thesis unfolding generateSlug_def by auto
qed

lemma join_chars:
  "\<forall>seg \<in> set segs. \<forall>c \<in> set seg. slug_char c \<Longrightarrow> \<forall>c \<in> set (join_str ''-'' segs). slug_char c"
  using set_join_str[of "''-''" segs] by (auto simp: slug_char_def)

lemma generateSlug_length: "length (generateSlug s) \<le> 60"
  by (simp add: generateSlug_def)

lemma generateSlug_chars: "c \<in> set (generateSlug s) \<Longrightarrow> slug_char c"
proof -
  assume c: "c \<in> set (generateSlug s)"
  obtain segs where s: "\<forall>seg \<in> set segs. \<forall>c \<in> set seg. slug_char c"
     "generateSlug s = join_str ''-'' segs \<or> generateSlug s = join_str ''-'' segs @ ''-''"
    using generateSlug_segs[of s] by blast
  have j: "\<forall>c \<in> set (join_str ''-'' segs). slug_char c"
    using join_chars[OF s(1)] .
  have h: "slug_char CHR ''-''" by (simp add: slug_char_def)
  from s(2) c j h show ?thesis by auto
qed

lemma generateSlug_hd: "generateSlug s \<noteq> [] \<Longrightarrow> hd (generateSlug s) \<noteq> CHR ''-''"
proof -
  assume ne: "generateSlug s \<noteq> []"
  obtain segs where s: "segs_ok CHR ''-'' segs"
     "generateSlug s = join_str ''-'' segs \<or> (segs \<noteq> [] \<and> generateSlug s = join_str ''-'' segs @ ''-'')"
    using generateSlug_segs by blast
  have n: "segs \<noteq> []" using s(2) ne by auto
  then have j: "join_str ''-'' segs \<noteq> []" using join_str_Nil_iff[OF s(1)] by simp
  have "hd (generateSlug s) = hd (join_str ''-'' segs)"
    using s(2) j by auto
  then show ?thesis using hd_join_str[OF s(1) n] by simp
qed

lemma generateSlug_no_double:
  assumes "Suc i < length (generateSlug s)"
  shows "\<not> (generateSlug s ! i = CHR ''-'' \<and> generateSlug s ! Suc i = CHR ''-'')"
proof -
  obtain segs where s: "segs_ok CHR ''-'' segs" "slug_clean s = join_str ''-'' segs"
    using slug_clean_segs by blast
  have "Suc i < length (slug_clean s)" "generateSlug s ! i = slug_clean s ! i"
    "generateSlug s ! Suc i = slug_clean s ! Suc i"
    using assms by (simp_all add: generateSlug_def)
  then show ?thesis using no_double_join[OF s(1), of i] s(2) by simp
qed

lemma generateSlug_last:
  assumes "length (slug_clean s) \<le> 60" "generateSlug s \<noteq> []"
  shows "last (generateSlug s) \<noteq> CHR ''-''"
proof -
  obtain segs where s: "segs_ok CHR ''-'' segs" "slug_clean s = join_str ''-'' segs"
    using slug_clean_segs by blast
  have g: "generateSlug s = join_str ''-'' segs" using assms(1) s(2) by (simp add: generateSlug_def)
  with assms(2) have "segs \<noteq> []" by auto
  then show ?thesis using last_join_str[OF s(1)] g by simp
qed

lemma generateSlug_twice:
  "generateSlug (generateSlug s) =
     (if generateSlug s \<noteq> [] \<and> last (generateSlug s) = CHR ''-''
      then butlast (generateSlug s) else generateSlug s)"
proof -
  let ?g = "generateSlug s"
  obtain segs where s: "segs_ok CHR ''-'' segs"
     "?g = join_str ''-'' segs \<or> (segs \<noteq> [] \<and> ?g = join_str ''-'' segs @ ''-'')"
    using generateSlug_segs by blast
  have ch: "\<forall>c \<in> set ?g. slug_char c" using generateSlug_chars by blast
  have len: "length ?g \<le> 60" by (rule generateSlug_length)
  have gg: "generateSlug ?g = take 60 (collapse ?g)"
    unfolding generateSlug_def[of ?g] slug_clean_def slug_prepare_id[OF ch] ..
  from s(2) show ?thesis
  proof
    assume a: "?g = join_str ''-'' segs"
    have "generateSlug ?g = ?g"
      using gg len collapse_join[OF s(1)] a by simp
    moreover have "\<not> (?g \<noteq> [] \<and> last ?g = CHR ''-'')"
    proof (cases "segs = []")
      case True
      then show ?thesis using a by simp
    next
      case False
      then show ?thesis using last_join_str[OF s(1)] a by simp
    qed
    ultimately show ?thesis by metis
  next
    assume a: "segs \<noteq> [] \<and> ?g = join_str ''-'' segs @ ''-''"
    then have "collapse ?g = join_str ''-'' segs"
      using collapse_join_hyphen[OF s(1)] by simp
    moreover have "length (join_str ''-'' segs) \<le> 60" using a len by simp
    ultimately have "generateSlug ?g = join_str ''-'' segs" using gg by simp
    moreover have "?g \<noteq> []" "last ?g = CHR ''-''" "butlast ?g = join_str ''-'' segs"
      using a by simp_all
    ultimately show ?thesis by simp
  qed
qed

lemma generateSlug_trailing_iff:
  "(generateSlug s \<noteq> [] \<and> last (generateSlug s) = CHR ''-'') \<longleftrightarrow>
   (60 < length (slug_clean s) \<and> slug_clean s ! 59 = CHR ''-'')"
proof (cases "length (slug_clean s) \<le> 60")
  case True
  then have "\<not> (generateSlug s \<noteq> [] \<and> last (generateSlug s) = CHR ''-'')"
    using generateSlug_last[of s] by blast
  with True show ?thesis by simp
next
  case False
  then have l: "60 < length (slug_clean s)" by simp
  then have n: "generateSlug s \<noteq> []" by (auto simp: generateSlug_def)
  have "last (generateSlug s) = generateSlug s ! (length (generateSlug s) - 1)"
    using n by (rule last_conv_nth)
  also have "length (generateSlug s) = 60" using l by (simp add: generateSlug_def)
  also have "generateSlug s ! (60 - 1) = slug_clean s ! 59" by (simp add: generateSlug_def)
  finally have "last (generateSlug s) = slug_clean s ! 59" .
  with l n show ?thesis by simp
qed

text \<open>
  Claim C5, as amended. For every input string the output of \<open>generateSlug\<close> has at most 60
  characters, all of them in \<^verbatim>\<open>[a-z0-9-]\<close>, does not start with a hyphen and has no two
  hyphens in a row. It ends with a hyphen exactly when the slug before truncation has more
  than 60 characters and its 60th character is a hyphen; in particular it does not end with
  a hyphen when the slug before truncation has at most 60 characters.
\<close>

theorem generateSlug_shape:
  "length (generateSlug s) \<le> 60
   \<and> set (generateSlug s) \<subseteq> set ''abcdefghijklmnopqrstuvwxyz0123456789-''
   \<and> (generateSlug s \<noteq> [] \<longrightarrow> hd (generateSlug s) \<noteq> CHR ''-'')
   \<and> (\<forall>i. Suc i < length (generateSlug s) \<longrightarrow>
          \<not> (generateSlug s ! i = CHR ''-'' \<and> generateSlug s ! Suc i = CHR ''-''))
   \<and> (length (slug_clean s) \<le> 60 \<longrightarrow> generateSlug s \<noteq> [] \<longrightarrow>
          last (generateSlug s) \<noteq> CHR ''-'')
   \<and> ((generateSlug s \<noteq> [] \<and> last (generateSlug s) = CHR ''-'') \<longleftrightarrow>
        (60 < length (slug_clean s) \<and> slug_clean s ! 59 = CHR ''-''))"
proof (intro conjI allI impI)
  show "length (generateSlug s) \<le> 60" by (rule generateSlug_length)
  show "set (generateSlug s) \<subseteq> set ''abcdefghijklmnopqrstuvwxyz0123456789-''"
    using generateSlug_chars slug_char_iff by blast
  show "hd (generateSlug s) \<noteq> CHR ''-''" if "generateSlug s \<noteq> []"
    using that by (rule generateSlug_hd)
  show "\<not> (generateSlug s ! i = CHR ''-'' \<and> generateSlug s ! Suc i = CHR ''-'')"
    if "Suc i < length (generateSlug s)" for i
    using that by (rule generateSlug_no_double)
  show "last (generateSlug s) \<noteq> CHR ''-''"
    if "length (slug_clean s) \<le> 60" "generateSlug s \<noteq> []"
    using that by (rule generateSlug_last)
  show "(generateSlug s \<noteq> [] \<and> last (generateSlug s) = CHR ''-'') \<longleftrightarrow>
        (60 < length (slug_clean s) \<and> slug_clean s ! 59 = CHR ''-'')"
    by (rule generateSlug_trailing_iff)
qed

theorem generateSlug_shape_witness:
  "length (slug_clean ''Best Running Shoes'') \<le> 60
   \<and> generateSlug ''Best Running Shoes'' = ''best-running-shoes''
   \<and> hd (generateSlug ''Best Running Shoes'') \<noteq> CHR ''-''
   \<and> last (generateSlug ''Best Running Shoes'') \<noteq> CHR ''-''
   \<and> \<not> (generateSlug ''Best Running Shoes'' ! 3 = CHR ''-''
         \<and> generateSlug ''Best Running Shoes'' ! Suc 3 = CHR ''-'')
   \<and> length (slug_clean ''AAAAAAAAAAAAAAAAAAAAAAAAAAAAAAAAAAAAAAAAAAAAAAAAAAAAAAAAAA bcd'') = 62
   \<and> slug_clean ''AAAAAAAAAAAAAAAAAAAAAAAAAAAAAAAAAAAAAAAAAAAAAAAAAAAAAAAAAA bcd'' ! 59 = CHR ''b''
   \<and> \<not> (generateSlug ''AAAAAAAAAAAAAAAAAAAAAAAAAAAAAAAAAAAAAAAAAAAAAAAAAAAAAAAAAA bcd'' \<noteq> []
        \<and> last (generateSlug ''AAAAAAAAAAAAAAAAAAAAAAAAAAAAAAAAAAAAAAAAAAAAAAAAAAAAAAAAAA bcd'')
            = CHR ''-'')
   \<and> 60 < length (slug_clean ''aaaaaaaaaaaaaaaaaaaaaaaaaaaaaaaaaaaaaaaaaaaaaaaaaaaaaaaaaaa-b'')
   \<and> slug_clean ''aaaaaaaaaaaaaaaaaaaaaaaaaaaaaaaaaaaaaaaaaaaaaaaaaaaaaaaaaaa-b'' ! 59 = CHR ''-''
   \<and> last (generateSlug ''aaaaaaaaaaaaaaaaaaaaaaaaaaaaaaaaaaaaaaaaaaaaaaaaaaaaaaaaaaa-b'')
        = CHR ''-''"
proof -
  let ?x = "''AAAAAAAAAAAAAAAAAAAAAAAAAAAAAAAAAAAAAAAAAAAAAAAAAAAAAAAAAA bcd''"
  let ?y = "''aaaaaaaaaaaaaaaaaaaaaaaaaaaaaaaaaaaaaaaaaaaaaaaaaaaaaaaaaaa-b''"
  have a: "length (slug_clean ''Best Running Shoes'') \<le> 60" by code_simp
  have b: "generateSlug ''Best Running Shoes'' = ''best-running-shoes''" by code_simp
  have c: "generateSlug ''Best Running Shoes'' \<noteq> []" unfolding b by simp
  have d: "Suc 3 < length (generateSlug ''Best Running Shoes'')" unfolding b by simp
  have first: "hd (generateSlug ''Best Running Shoes'') \<noteq> CHR ''-''
      \<and> last (generateSlug ''Best Running Shoes'') \<noteq> CHR ''-''
      \<and> \<not> (generateSlug ''Best Running Shoes'' ! 3 = CHR ''-''
         \<and> generateSlug ''Best Running Shoes'' ! Suc 3 = CHR ''-'')"
    using generateSlug_shape [of "''Best Running Shoes''"] a c d by blast
  have xl: "length (slug_clean ?x) = 62" by code_simp
  have xc: "slug_clean ?x ! 59 = CHR ''b''" by code_simp
  have xn: "\<not> (60 < length (slug_clean ?x) \<and> slug_clean ?x ! 59 = CHR ''-'')"
    unfolding xc by simp
  note tx = generateSlug_shape [of ?x, THEN conjunct2, THEN conjunct2, THEN conjunct2,
      THEN conjunct2, THEN conjunct2]
  have xr: "\<not> (generateSlug ?x \<noteq> [] \<and> last (generateSlug ?x) = CHR ''-'')"
    using tx xn by (rule ssubst)
  have yl: "60 < length (slug_clean ?y)" by code_simp
  have yc: "slug_clean ?y ! 59 = CHR ''-''" by code_simp
  note ty = generateSlug_shape [of ?y, THEN conjunct2, THEN conjunct2, THEN conjunct2,
      THEN conjunct2, THEN conjunct2]
  have "generateSlug ?y \<noteq> [] \<and> last (generateSlug ?y) = CHR ''-''"
    using ty conjI[OF yl yc] by (rule ssubst)
  then have yr: "last (generateSlug ?y) = CHR ''-''" by (rule conjunct2)
  show ?thesis
    using a b first xl xc xr yl yc yr by (intro conjI) blast+
qed

text \<open>The claim as stated fails: a slug cut at 60 characters can end with a hyphen.\<close>

theorem generateSlug_trailing_hyphen_counterexample:
  "last (generateSlug ''aaaaaaaaaaaaaaaaaaaaaaaaaaaaaaaaaaaaaaaaaaaaaaaaaaaaaaaaaaa-b'') = CHR ''-''"
  by code_simp

text \<open>
  Claim C4, as amended. Applying \<open>generateSlug\<close> twice gives the result of applying it once
  whenever that result does not end with a hyphen, in particular whenever the slug before
  truncation has at most 60 characters; when the result ends with a hyphen, the second
  application removes that hyphen.
\<close>

theorem generateSlug_twice_char:
  "generateSlug (generateSlug s) =
     (if generateSlug s \<noteq> [] \<and> last (generateSlug s) = CHR ''-''
      then butlast (generateSlug s) else generateSlug s)
   \<and> (length (slug_clean s) \<le> 60 \<longrightarrow> generateSlug (generateSlug s) = generateSlug s)"
proof
  show "generateSlug (generateSlug s) =
     (if generateSlug s \<noteq> [] \<and> last (generateSlug s) = CHR ''-''
      then butlast (generateSlug s) else generateSlug s)"
    by (rule generateSlug_twice)
  show "length (slug_clean s) \<le> 60 \<longrightarrow> generateSlug (generateSlug s) = generateSlug s"
    using generateSlug_twice [of s] generateSlug_last [of s] by metis
qed

theorem generateSlug_twice_char_witness:
  "length (slug_clean ''hello   world'') \<le> 60
   \<and> generateSlug (generateSlug ''hello   world'') = generateSlug ''hello   world''
   \<and> generateSlug ''hello   world'' = ''hello-world''"
proof -
  have a: "length (slug_clean ''hello   world'') \<le> 60" by code_simp
  have b: "generateSlug ''hello   world'' = ''hello-world''" by code_simp
  show ?thesis
    using generateSlug_twice_char [of "''hello   world''"] a b by blast
qed

text \<open>The claim as stated fails at an input whose slug is cut right after a hyphen.\<close>

theorem generateSlug_idempotent_counterexample:
  "generateSlug (generateSlug ''aaaaaaaaaaaaaaaaaaaaaaaaaaaaaaaaaaaaaaaaaaaaaaaaaaaaaaaaaaa-b'') \<noteq>
   generateSlug ''aaaaaaaaaaaaaaaaaaaaaaaaaaaaaaaaaaaaaaaaaaaaaaaaaaaaaaaaaaa-b''"
  by code_simp

section \<open>The greedy pass of clusterKeywords\<close>

lemma findClusterIdx_Some:
  "findClusterIdx cs kw1 kw2 = Some i \<longleftrightarrow>
     i < length cs \<and> (kw1 \<in> set (cs ! i) \<or> kw2 \<in> set (cs ! i)) \<and>
     (\<forall>j < i. kw1 \<notin> set (cs ! j) \<and> kw2 \<notin> set (cs ! j))"
proof (induction cs arbitrary: i)
  case Nil
  then show ?case by simp
next
  case (Cons c cs)
  show ?case
  proof (cases "kw1 \<in> set c \<or> kw2 \<in> set c")
    case True
    then show ?thesis by (cases i) auto
  next
    case False
    show ?thesis
    proof (cases i)
      case 0
      with False show ?thesis by auto
    next
      case (Suc k)
      have "(\<forall>j < Suc k. kw1 \<notin> set ((c # cs) ! j) \<and> kw2 \<notin> set ((c # cs) ! j)) \<longleftrightarrow>
            (\<forall>j < k. kw1 \<notin> set (cs ! j) \<and> kw2 \<notin> set (cs ! j))"
        using False by (auto simp: less_Suc_eq_0_disj)
      with Suc False Cons.IH[of k] show ?thesis by auto
    qed
  qed
qed

lemma findClusterIdx_None:
  "findClusterIdx cs kw1 kw2 = None \<longleftrightarrow> (\<forall>c \<in> set cs. kw1 \<notin> set c \<and> kw2 \<notin> set c)"
  by (induction cs) auto

lemma set_set_add [simp]: "set (set_add s x) = insert x (set s)"
  by (auto simp: set_add_def)

lemma distinct_set_add [simp]: "distinct (set_add s x) = distinct s"
  by (auto simp: set_add_def)

lemma clusters_cluster_pair_found:
  "findClusterIdx (clusters st) (fst (split_key key)) (snd (split_key key)) = Some i \<Longrightarrow>
   clusters (cluster_pair st key) =
     (clusters st)[i := set_add (set_add (clusters st ! i) (fst (split_key key))) (snd (split_key key))]"
  by (simp add: cluster_pair_def Let_def)

lemma clusters_cluster_pair_new:
  "findClusterIdx (clusters st) (fst (split_key key)) (snd (split_key key)) = None \<Longrightarrow>
   clusters (cluster_pair st key) =
     clusters st @ [js_set [fst (split_key key), snd (split_key key)]]"
  by (simp add: cluster_pair_def Let_def)

lemma assigned_cluster_pair:
  "set (assigned (cluster_pair st key)) =
     {fst (split_key key), snd (split_key key)} \<union> set (assigned st)"
  by (auto simp: cluster_pair_def Let_def)

lemma cluster_pair_grows:
  "length (clusters st) \<le> length (clusters (cluster_pair st key)) \<and>
   (\<forall>i < length (clusters st). set (clusters st ! i) \<subseteq> set (clusters (cluster_pair st key) ! i))"
proof (cases "findClusterIdx (clusters st) (fst (split_key key)) (snd (split_key key))")
  case None
  then show ?thesis by (simp add: clusters_cluster_pair_new nth_append)
next
  case (Some i)
  then show ?thesis
    by (auto simp: clusters_cluster_pair_found nth_list_update findClusterIdx_Some)
qed

lemma greedy_loop_grows:
  "length (clusters st) \<le> length (clusters (greedy_loop m es st)) \<and>
   (\<forall>i < length (clusters st). set (clusters st ! i) \<subseteq> set (clusters (greedy_loop m es st) ! i))"
proof (induction es arbitrary: st)
  case Nil
  then show ?case by simp
next
  case (Cons e es)
  show ?case
  proof (cases "count (snd e) < m")
    case True
    then show ?thesis by simp
  next
    case False
    have a: "length (clusters st) \<le> length (clusters (cluster_pair st (fst e)))"
      "\<forall>i < length (clusters st). set (clusters st ! i) \<subseteq> set (clusters (cluster_pair st (fst e)) ! i)"
      using cluster_pair_grows by blast+
    have b: "length (clusters (cluster_pair st (fst e))) \<le> length (clusters (greedy_loop m es (cluster_pair st (fst e))))"
      "\<forall>i < length (clusters (cluster_pair st (fst e))). set (clusters (cluster_pair st (fst e)) ! i) \<subseteq> set (clusters (greedy_loop m es (cluster_pair st (fst e))) ! i)"
      using Cons.IH[of "cluster_pair st (fst e)"] by blast+
    have "\<forall>i < length (clusters st). set (clusters st ! i) \<subseteq> set (clusters (greedy_loop m es (cluster_pair st (fst e))) ! i)"
    proof (intro allI impI)
      fix i assume i: "i < length (clusters st)"
      then have "i < length (clusters (cluster_pair st (fst e)))" using a(1) by simp
      then show "set (clusters st ! i) \<subseteq> set (clusters (greedy_loop m es (cluster_pair st (fst e))) ! i)"
        using a(2) b(2) i by blast
    qed
    with a(1) b(1) False show ?thesis by simp
  qed
qed

text \<open>The loop with its \<^verbatim>\<open>break\<close> is a fold over the longest prefix at or above the threshold.\<close>

lemma greedy_loop_takeWhile:
  "greedy_loop m es st = foldl cluster_pair st (map fst (takeWhile (\<lambda>e. m \<le> count (snd e)) es))"
  by (induction es arbitrary: st) (auto simp: not_less)

lemma js_set_pair: "set (js_set [a, b]) = {a, b}"
  by (auto simp: js_set_def)

text \<open>Invariant of the loop: \<open>assigned\<close> holds exactly the members of the clusters.\<close>

lemma cluster_pair_union:
  assumes "set (assigned st) = \<Union> (set ` set (clusters st))"
  shows "set (assigned (cluster_pair st key)) = \<Union> (set ` set (clusters (cluster_pair st key)))"
proof (cases "findClusterIdx (clusters st) (fst (split_key key)) (snd (split_key key))")
  case None
  then show ?thesis using assms
    by (auto simp: clusters_cluster_pair_new assigned_cluster_pair js_set_pair)
next
  case (Some i)
  then have i: "i < length (clusters st)" by (simp add: findClusterIdx_Some)
  have "\<Union> (set ` set ((clusters st)[i := c])) = set c \<union> \<Union> (set ` set (clusters st))"
    if "set (clusters st ! i) \<subseteq> set c" for c
  proof
    show "\<Union> (set ` set ((clusters st)[i := c])) \<subseteq> set c \<union> \<Union> (set ` set (clusters st))"
      using set_update_subset_insert[of "clusters st" i c] by auto
    show "set c \<union> \<Union> (set ` set (clusters st)) \<subseteq> \<Union> (set ` set ((clusters st)[i := c]))"
    proof
      fix x assume "x \<in> set c \<union> \<Union> (set ` set (clusters st))"
      then consider "x \<in> set c" | d where "d \<in> set (clusters st)" "x \<in> set d" by auto
      then show "x \<in> \<Union> (set ` set ((clusters st)[i := c]))"
      proof cases
        case 1
        have "c \<in> set ((clusters st)[i := c])" using i by (simp add: set_update_memI)
        with 1 show ?thesis by blast
      next
        case 2
        then obtain j where j: "j < length (clusters st)" "d = clusters st ! j"
          by (auto simp: in_set_conv_nth)
        show ?thesis
        proof (cases "j = i")
          case True
          then have "x \<in> set c" using 2 j that by auto
          moreover have "c \<in> set ((clusters st)[i := c])" using i by (simp add: set_update_memI)
          ultimately show ?thesis by blast
        next
          case False
          then have "(clusters st)[i := c] ! j = d" using j by simp
          then have "d \<in> set ((clusters st)[i := c])" using j by (metis length_list_update nth_mem)
          with 2 show ?thesis by blast
        qed
      qed
    qed
  qed
  note upd = this
  define c where "c = set_add (set_add (clusters st ! i) (fst (split_key key))) (snd (split_key key))"
  have c: "set c = {fst (split_key key), snd (split_key key)} \<union> set (clusters st ! i)"
    by (auto simp: c_def)
  have sub: "set (clusters st ! i) \<subseteq> \<Union> (set ` set (clusters st))"
    using i by (meson UN_upper nth_mem)
  have "clusters (cluster_pair st key) = (clusters st)[i := c]"
    using Some by (simp add: clusters_cluster_pair_found c_def)
  then have "\<Union> (set ` set (clusters (cluster_pair st key))) = set c \<union> \<Union> (set ` set (clusters st))"
    using upd[of c] c by auto
  also have "\<dots> = {fst (split_key key), snd (split_key key)} \<union> \<Union> (set ` set (clusters st))"
    using c sub by blast
  finally show ?thesis
    using assms by (simp only: assigned_cluster_pair)
qed

lemma foldl_cluster_pair_union:
  "set (assigned st) = \<Union> (set ` set (clusters st)) \<Longrightarrow>
   set (assigned (foldl cluster_pair st ks)) = \<Union> (set ` set (clusters (foldl cluster_pair st ks)))"
proof (induction ks arbitrary: st)
  case Nil
  then show ?case by simp
next
  case (Cons k ks)
  show ?case
    unfolding foldl.simps by (rule Cons.IH, rule cluster_pair_union, rule Cons.prems)
qed

lemma foldl_cluster_pair_assigned:
  "set (assigned (foldl cluster_pair st ks)) =
     set (assigned st) \<union> (\<Union>k \<in> set ks. {fst (split_key k), snd (split_key k)})"
proof (induction ks arbitrary: st)
  case Nil
  then show ?case by simp
next
  case (Cons k ks)
  have "set (assigned (foldl cluster_pair st (k # ks))) =
        set (assigned (cluster_pair st k)) \<union> (\<Union>k \<in> set ks. {fst (split_key k), snd (split_key k)})"
    using Cons.IH[of "cluster_pair st k"] by simp
  also have "\<dots> = set (assigned st) \<union> (\<Union>k \<in> set (k # ks). {fst (split_key k), snd (split_key k)})"
    unfolding assigned_cluster_pair by auto
  finally show ?case .
qed

section \<open>Entries of the overlap matrix\<close>

lemma in_map_set: "e \<in> set (map_set m k v) \<Longrightarrow> e \<in> set m \<or> e = (k, v)"
  by (induction m) (auto split: if_splits)

lemma combinations_mem:
  "(a, b) \<in> set (combinations xs) \<Longrightarrow> a \<in> set xs \<and> b \<in> set xs"
  by (induction xs) (auto simp: combinations_Cons)


lemma overlap_pair_mem:
  assumes "e \<in> set (overlap_pair sd M p)"
  shows "e \<in> set M \<or>
     (fst e = pair_key (fst p) (snd p) \<and>
      sharedUrls (snd e) = filter (\<lambda>u. u \<in> set (get_urls sd (snd p))) (js_set (get_urls sd (fst p))) \<and>
      sharedUrls (snd e) \<noteq> [] \<and>
      count (snd e) = int (length (sharedUrls (snd e))) \<and>
      overlapScore (snd e) = double_div (length (sharedUrls (snd e)))
         (min (card (set (get_urls sd (fst p)))) (card (set (get_urls sd (snd p))))))"
proof (cases "filter (\<lambda>u. u \<in> set (get_urls sd (snd p))) (js_set (get_urls sd (fst p))) = []")
  case True
  then have "overlap_pair sd M p = M" by (simp add: overlap_pair_def Let_def)
  with assms show ?thesis by simp
next
  case False
  let ?sh = "filter (\<lambda>u. u \<in> set (get_urls sd (snd p))) (js_set (get_urls sd (fst p)))"
  have "overlap_pair sd M p = map_set M (pair_key (fst p) (snd p))
        \<lparr>sharedUrls = ?sh, count = int (length ?sh),
         overlapScore = double_div (length ?sh)
            (min (card (set (get_urls sd (fst p)))) (card (set (get_urls sd (snd p)))))\<rparr>"
    (is "_ = map_set M ?k ?v")
    using False by (simp add: overlap_pair_def Let_def length_js_set)
  with assms have "e \<in> set M \<or> e = (?k, ?v)"
    using in_map_set[of e M ?k ?v] by simp
  then show ?thesis
  proof
    assume "e \<in> set M"
    then show ?thesis by simp
  next
    assume "e = (?k, ?v)"
    then show ?thesis using False by simp
  qed
qed

lemma foldl_overlap_pair_mem:
  "e \<in> set (foldl (overlap_pair sd) M ps) \<Longrightarrow>
   e \<in> set M \<or> (\<exists>p \<in> set ps.
      fst e = pair_key (fst p) (snd p) \<and>
      sharedUrls (snd e) = filter (\<lambda>u. u \<in> set (get_urls sd (snd p))) (js_set (get_urls sd (fst p))) \<and>
      sharedUrls (snd e) \<noteq> [] \<and>
      count (snd e) = int (length (sharedUrls (snd e))) \<and>
      overlapScore (snd e) = double_div (length (sharedUrls (snd e)))
         (min (card (set (get_urls sd (fst p)))) (card (set (get_urls sd (snd p))))))"
proof (induction ps arbitrary: M)
  case Nil
  then show ?case by simp
next
  case (Cons p ps)
  from Cons.prems have "e \<in> set (foldl (overlap_pair sd) (overlap_pair sd M p) ps)" by simp
  from Cons.IH[OF this] overlap_pair_mem[of e sd M p] show ?case by auto
qed

lemma calculateUrlOverlap_entry:
  assumes "e \<in> set (calculateUrlOverlap sd)"
  shows "\<exists>k1 k2. (k1, k2) \<in> set (combinations (map fst sd)) \<and>
      fst e = pair_key k1 k2 \<and>
      sharedUrls (snd e) = filter (\<lambda>u. u \<in> set (get_urls sd k2)) (js_set (get_urls sd k1)) \<and>
      sharedUrls (snd e) \<noteq> [] \<and>
      count (snd e) = int (length (sharedUrls (snd e))) \<and>
      overlapScore (snd e) = double_div (length (sharedUrls (snd e)))
         (min (card (set (get_urls sd k1))) (card (set (get_urls sd k2))))"
proof -
  from foldl_overlap_pair_mem[OF assms[unfolded calculateUrlOverlap_def]]
  obtain p where p: "p \<in> set (combinations (map fst sd))"
      "fst e = pair_key (fst p) (snd p)"
      "sharedUrls (snd e) = filter (\<lambda>u. u \<in> set (get_urls sd (snd p))) (js_set (get_urls sd (fst p)))"
      "sharedUrls (snd e) \<noteq> []"
      "count (snd e) = int (length (sharedUrls (snd e)))"
      "overlapScore (snd e) = double_div (length (sharedUrls (snd e)))
         (min (card (set (get_urls sd (fst p)))) (card (set (get_urls sd (snd p)))))"
    by auto
  show ?thesis
    by (rule exI[of _ "fst p"], rule exI[of _ "snd p"]) (use p in simp)
qed

lemma split_key_pair_key:
  assumes "CHR ''|'' \<notin> set k1" "CHR ''|'' \<notin> set k2"
  shows "split_key (pair_key k1 k2) = (Some k1, Some k2)"
proof -
  have "split_str CHR ''|'' (pair_key k1 k2) = [k1, k2]"
    using assms split_join[of "[k1, k2]" "CHR ''|''"] by (simp add: pair_key_def)
  then show ?thesis by (simp add: split_key_def)
qed

lemma overlap_keys_members:
  assumes "no_bar sd" "e \<in> set (calculateUrlOverlap sd)"
  shows "\<exists>k1 k2. (k1, k2) \<in> set (combinations (map fst sd)) \<and> split_key (fst e) = (Some k1, Some k2)"
proof -
  obtain k1 k2 where k: "(k1, k2) \<in> set (combinations (map fst sd))" "fst e = pair_key k1 k2"
    using calculateUrlOverlap_entry[OF assms(2)] by blast
  have "k1 \<in> set (map fst sd)" "k2 \<in> set (map fst sd)"
    using combinations_mem[OF k(1)] by auto
  then have "CHR ''|'' \<notin> set k1" "CHR ''|'' \<notin> set k2"
    using assms(1) by (auto simp: no_bar_def)
  then show ?thesis using k split_key_pair_key by auto
qed

lemma set_sortedPairs [simp]: "set (sortedPairs om) = set om"
  by (simp add: sortedPairs_def)

lemma set_qualifying: "e \<in> set (qualifying om m) \<Longrightarrow> e \<in> set om \<and> m \<le> count (snd e)"
  unfolding qualifying_def using set_takeWhileD[of e _ "sortedPairs om"] by auto

lemma greedy_pass_fold:
  "greedy_pass om m = foldl cluster_pair \<lparr>clusters = [], assigned = []\<rparr> (map fst (qualifying om m))"
  by (simp add: greedy_pass_def greedy_loop_takeWhile qualifying_def)

lemma greedy_pass_union:
  "set (assigned (greedy_pass om m)) = \<Union> (set ` set (clusters (greedy_pass om m)))"
  unfolding greedy_pass_fold by (rule foldl_cluster_pair_union) simp

lemma greedy_pass_assigned:
  "set (assigned (greedy_pass om m)) = (\<Union>e \<in> set (qualifying om m). pair_members (fst e))"
proof -
  have "set (assigned (greedy_pass om m)) =
      set (assigned \<lparr>clusters = [], assigned = []\<rparr>) \<union>
      (\<Union>k \<in> set (map fst (qualifying om m)). {fst (split_key k), snd (split_key k)})"
    unfolding greedy_pass_fold by (rule foldl_cluster_pair_assigned)
  then show ?thesis by (auto simp: pair_members_def)
qed


lemma clusterKeywords_members:
  assumes "no_bar sd" "c \<in> set (clusterKeywords sd (calculateUrlOverlap sd) m)" "x \<in> set c"
  shows "x \<in> Some ` set (map fst sd)"
proof -
  let ?om = "calculateUrlOverlap sd"
  from assms(2) have "c \<in> set (clusters (greedy_pass ?om m)) \<or>
      (\<exists>kw \<in> set (map fst sd). c = [Some kw])"
    by (auto simp: clusterKeywords_def Let_def)
  then have "x \<in> \<Union> (set ` set (clusters (greedy_pass ?om m))) \<or> x \<in> Some ` set (map fst sd)"
  proof
    assume "c \<in> set (clusters (greedy_pass ?om m))"
    then show ?thesis using assms(3) by blast
  next
    assume "\<exists>kw \<in> set (map fst sd). c = [Some kw]"
    then obtain kw where "kw \<in> set (map fst sd)" "c = [Some kw]" by blast
    then have "x \<in> Some ` set (map fst sd)" using assms(3) by simp
    then show ?thesis ..
  qed
  then consider "x \<in> \<Union> (set ` set (clusters (greedy_pass ?om m)))"
    | "x \<in> Some ` set (map fst sd)"
    by blast
  then show ?thesis
  proof cases
    case 1
    then have "x \<in> (\<Union>e \<in> set (qualifying ?om m). pair_members (fst e))"
      by (simp only: greedy_pass_union[symmetric] greedy_pass_assigned)
    then obtain e where e: "e \<in> set ?om" "x \<in> pair_members (fst e)"
      using set_qualifying by blast
    obtain k1 k2 where k: "(k1, k2) \<in> set (combinations (map fst sd))"
        "split_key (fst e) = (Some k1, Some k2)"
      using overlap_keys_members[OF assms(1) e(1)] by blast
    then show ?thesis using e(2) combinations_mem[OF k(1)] by (auto simp: pair_members_def)
  next
    case 2
    then show ?thesis .
  qed
qed

section \<open>Order, threshold and origin of the clusters\<close>




lemma sortedPairs_descending:
  assumes "i < j" "j < length (sortedPairs om)"
  shows "count (snd (sortedPairs om ! j)) \<le> count (snd (sortedPairs om ! i))"
proof -
  have "sorted (map (\<lambda>e. - count (snd e)) (sortedPairs om))"
    by (simp add: sortedPairs_def)
  then have "map (\<lambda>e. - count (snd e)) (sortedPairs om) ! i \<le> map (\<lambda>e. - count (snd e)) (sortedPairs om) ! j"
    using assms by (metis sorted_iff_nth_mono_less length_map)
  then show ?thesis using assms by simp
qed

lemma sortedPairs_stable:
  "filter (\<lambda>e. count (snd e) = n) (sortedPairs om) = filter (\<lambda>e. count (snd e) = n) om"
proof -
  have "filter (\<lambda>e. - count (snd e) = - n) (sort_key (\<lambda>e. - count (snd e)) om)
      = filter (\<lambda>e. - count (snd e) = - n) om"
    by (rule sort_key_stable)
  then show ?thesis by (simp add: sortedPairs_def)
qed

lemma greedy_loop_stops:
  assumes "count (snd e) < m" "\<forall>x \<in> set es1. m \<le> count (snd x)"
  shows "greedy_loop m (es1 @ e # es2) st = foldl cluster_pair st (map fst es1)"
  using assms by (induction es1 arbitrary: st) (auto simp: not_less)

lemma qualifying_filter:
  "qualifying om m = filter (\<lambda>e. m \<le> count (snd e)) (sortedPairs om)"
proof -
  have s: "sorted (map (\<lambda>e. - count (snd e)) (sortedPairs om))"
    by (simp add: sortedPairs_def)
  have "sorted (map (\<lambda>e. - count (snd e)) es) \<Longrightarrow>
     takeWhile (\<lambda>e. m \<le> count (snd e)) es = filter (\<lambda>e. m \<le> count (snd e)) es" for es :: "(string \<times> OverlapData) list"
  proof (induction es)
    case Nil
    then show ?case by simp
  next
    case (Cons a es)
    show ?case
    proof (cases "m \<le> count (snd a)")
      case True
      with Cons show ?thesis by simp
    next
      case False
      have "\<forall>x \<in> set es. count (snd x) \<le> count (snd a)" using Cons.prems by auto
      then have "filter (\<lambda>e. m \<le> count (snd e)) es = []" using False by (auto simp: filter_empty_conv)
      with False show ?thesis by simp
    qed
  qed
  from this[OF s] show ?thesis by (simp add: qualifying_def)
qed

lemma multi_cluster_origin:
  assumes "c \<in> set (clusterKeywords sd om m)" "1 < length c" "x \<in> set c"
  shows "\<exists>e \<in> set om. m \<le> count (snd e) \<and> x \<in> pair_members (fst e)"
proof -
  from assms(1) have "c \<in> set (clusters (greedy_pass om m)) \<or>
      (\<exists>kw \<in> set (map fst sd). c = [Some kw])"
    by (auto simp: clusterKeywords_def Let_def)
  with assms(2) have "c \<in> set (clusters (greedy_pass om m))" by auto
  with assms(3) have "x \<in> set (assigned (greedy_pass om m))"
    unfolding greedy_pass_union by blast
  then obtain e where "e \<in> set (qualifying om m)" "x \<in> pair_members (fst e)"
    unfolding greedy_pass_assigned by blast
  then show ?thesis using set_qualifying by blast
qed



section \<open>The sample inputs, evaluated\<close>

lemmas eval_overlap = calculateUrlOverlap_def combinations_Cons overlap_pair_def
        get_urls_def pair_key_def js_set_def Let_def double_div_self double_div_4_5_Suc
lemmas eval_cluster = clusterKeywords_def greedy_pass_def sortedPairs_def cluster_pair_def
      split_key_def set_add_def js_set_def Let_def

lemma bridge_overlap:
  "calculateUrlOverlap bridge_map =
    [(''a|b'', \<lparr>sharedUrls = [''p1'', ''p2'', ''p3'', ''p4'', ''p5''], count = 5, overlapScore = 1\<rparr>),
     (''b|c'', \<lparr>sharedUrls = [''q1'', ''q2'', ''q3'', ''q4''], count = 4,
        overlapScore = 3602879701896397 / 4503599627370496\<rparr>),
     (''b|d'', \<lparr>sharedUrls = [''q1'', ''q2'', ''q3'', ''q4''], count = 4,
        overlapScore = 3602879701896397 / 4503599627370496\<rparr>),
     (''c|d'', \<lparr>sharedUrls = [''q1'', ''q2'', ''q3'', ''q4'', ''q5''], count = 5, overlapScore = 1\<rparr>)]"
  by (simp add: bridge_map_def eval_overlap)

lemma bridge_clusters:
  "clusterKeywords bridge_map (calculateUrlOverlap bridge_map) 3 =
     [[Some ''a'', Some ''b'', Some ''c'', Some ''d''], [Some ''c'', Some ''d'']]"
  unfolding bridge_overlap by (simp add: bridge_map_def eval_cluster)

lemma bar_overlap:
  "calculateUrlOverlap bar_map =
    [(''a|b|c'', \<lparr>sharedUrls = [''u1'', ''u2'', ''u3''], count = 3, overlapScore = 1\<rparr>)]"
  by (simp add: bar_map_def eval_overlap)

lemma bar_clusters:
  "clusterKeywords bar_map (calculateUrlOverlap bar_map) 3 =
     [[Some ''a'', Some ''b''], [Some ''a|b''], [Some ''c'']]"
  unfolding bar_overlap by (simp add: bar_map_def eval_cluster)

lemma bridge_sorted:
  "map fst (sortedPairs (calculateUrlOverlap bridge_map)) = [''a|b'', ''c|d'', ''b|c'', ''b|d'']"
  unfolding bridge_overlap by (simp add: sortedPairs_def)

section \<open>Coverage and membership\<close>


lemma saveOverlapMatrix_keywords_mem:
  assumes "no_bar sd" "r \<in> set (saveOverlapMatrix_keywords (calculateUrlOverlap sd))"
  shows "\<exists>k1 \<in> set (map fst sd). \<exists>k2 \<in> set (map fst sd).
           r = (escapeCSV (Some k1), escapeCSV (Some k2))"
proof -
  from assms(2) obtain e where e: "e \<in> set (calculateUrlOverlap sd)"
      "r = (escapeCSV (fst (split_key (fst e))), escapeCSV (snd (split_key (fst e))))"
    by (auto simp: saveOverlapMatrix_keywords_def)
  obtain k1 k2 where k: "(k1, k2) \<in> set (combinations (map fst sd))"
      "split_key (fst e) = (Some k1, Some k2)"
    using overlap_keys_members[OF assms(1) e(1)] by blast
  have "k1 \<in> set (map fst sd)" "k2 \<in> set (map fst sd)"
    using combinations_mem[OF k(1)] by simp_all
  moreover have "r = (escapeCSV (Some k1), escapeCSV (Some k2))" using e(2) k(2) by simp
  ultimately show ?thesis by blast
qed

lemma bar_map_foreign:
  "distinct (map fst bar_map) \<and>
   [Some ''a'', Some ''b''] \<in> set (clusterKeywords bar_map (calculateUrlOverlap bar_map) 3) \<and>
   Some ''a'' \<in> set [Some ''a'', Some ''b''] \<and>
   Some ''a'' \<notin> Some ` set (map fst bar_map)"
  unfolding bar_clusters by (simp add: bar_map_def)

section \<open>Members of more than one cluster\<close>

lemma occurrences_append [simp]:
  "occurrences (cs @ ds) x = occurrences cs x + occurrences ds x"
  by (simp add: occurrences_def)

lemma occurrences_Nil [simp]: "occurrences [] x = 0"
  by (simp add: occurrences_def)



















lemma clusterKeywords_fold:
  "clusterKeywords sd om m =
     clusters (foldl cluster_pair \<lparr>clusters = [], assigned = []\<rparr>
        (map fst (takeWhile (\<lambda>e. m \<le> count (snd e)) (sortedPairs om)))) @
     map (\<lambda>kw. [Some kw])
       (filter (\<lambda>kw. Some kw \<notin> set (assigned (foldl cluster_pair \<lparr>clusters = [], assigned = []\<rparr>
          (map fst (takeWhile (\<lambda>e. m \<le> count (snd e)) (sortedPairs om))))))
        (map fst sd))"
  by (simp add: clusterKeywords_def Let_def greedy_pass_fold qualifying_def)








lemma bridge_fold:
  "clusters (foldl cluster_pair \<lparr>clusters = [], assigned = []\<rparr>
        (map fst (takeWhile (\<lambda>e. 3 \<le> count (snd e)) (sortedPairs (calculateUrlOverlap bridge_map)))))
   = [[Some ''a'', Some ''b'', Some ''c'', Some ''d''], [Some ''c'', Some ''d'']]"
  unfolding bridge_overlap
  by (simp add: sortedPairs_def cluster_pair_def split_key_def set_add_def js_set_def Let_def)

lemma bridge_fold_assigned:
  "set (assigned (foldl cluster_pair \<lparr>clusters = [], assigned = []\<rparr>
        (map fst (takeWhile (\<lambda>e. 3 \<le> count (snd e)) (sortedPairs (calculateUrlOverlap bridge_map))))))
   = {Some ''a'', Some ''b'', Some ''c'', Some ''d''}"
  unfolding bridge_overlap
  by (auto simp add: sortedPairs_def cluster_pair_def split_key_def set_add_def js_set_def Let_def)

lemma bridge_fold5:
  "foldl cluster_pair \<lparr>clusters = [], assigned = []\<rparr>
        (map fst (takeWhile (\<lambda>e. 5 \<le> count (snd e)) (sortedPairs (calculateUrlOverlap bridge_map))))
   = \<lparr>clusters = [[Some ''a'', Some ''b''], [Some ''c'', Some ''d'']],
      assigned = [Some ''a'', Some ''b'', Some ''c'', Some ''d'']\<rparr>"
  unfolding bridge_overlap
  by (simp add: sortedPairs_def cluster_pair_def split_key_def set_add_def js_set_def Let_def)











text \<open>
  Claim C2. For a processed pair whose key splits into \<open>kw1\<close> and \<open>kw2\<close>: when some cluster
  holds one of them, both are added to the first such cluster in creation order and no other
  cluster changes; when none does, the new cluster {kw1, kw2} is appended. The loop applies
  exactly this step, from left to right, to the entries before the first one below the
  threshold, and \<open>clusterKeywords\<close> returns the clusters of that fold over its sorted entries,
  followed by the singletons. Throughout the loop the number of clusters never decreases and
  every cluster keeps its index and all of its members, so clusters are never merged and no
  keyword ever leaves a cluster.
\<close>

theorem cluster_pair_first_match:
  assumes "split_key key = (kw1, kw2)"
  shows "(\<forall>i. i < length (clusters st)
            \<and> (kw1 \<in> set (clusters st ! i) \<or> kw2 \<in> set (clusters st ! i))
            \<and> (\<forall>j < i. kw1 \<notin> set (clusters st ! j) \<and> kw2 \<notin> set (clusters st ! j))
          \<longrightarrow> length (clusters (cluster_pair st key)) = length (clusters st)
            \<and> set (clusters (cluster_pair st key) ! i) = {kw1, kw2} \<union> set (clusters st ! i)
            \<and> (\<forall>j < length (clusters st). j \<noteq> i \<longrightarrow>
                  clusters (cluster_pair st key) ! j = clusters st ! j))
       \<and> ((\<forall>c \<in> set (clusters st). kw1 \<notin> set c \<and> kw2 \<notin> set c)
          \<longrightarrow> (\<exists>c. clusters (cluster_pair st key) = clusters st @ [c] \<and> set c = {kw1, kw2}))
       \<and> length (clusters st) \<le> length (clusters (greedy_loop m es st))
       \<and> (\<forall>i < length (clusters st).
            set (clusters st ! i) \<subseteq> set (clusters (greedy_loop m es st) ! i))
       \<and> greedy_loop m es st =
            foldl cluster_pair st (map fst (takeWhile (\<lambda>e. m \<le> count (snd e)) es))
       \<and> (\<forall>ks k. foldl cluster_pair st (ks @ [k]) = cluster_pair (foldl cluster_pair st ks) k)
       \<and> clusterKeywords sd om m =
            clusters (foldl cluster_pair \<lparr>clusters = [], assigned = []\<rparr>
              (map fst (takeWhile (\<lambda>e. m \<le> count (snd e)) (sortedPairs om)))) @
            map (\<lambda>kw. [Some kw])
              (filter (\<lambda>kw. Some kw \<notin> set (assigned
                  (foldl cluster_pair \<lparr>clusters = [], assigned = []\<rparr>
                    (map fst (takeWhile (\<lambda>e. m \<le> count (snd e)) (sortedPairs om))))))
               (map fst sd))"
proof (intro conjI allI impI)
  have k: "fst (split_key key) = kw1" "snd (split_key key) = kw2" using assms by simp_all
  {
    fix i
    assume a: "i < length (clusters st)
            \<and> (kw1 \<in> set (clusters st ! i) \<or> kw2 \<in> set (clusters st ! i))
            \<and> (\<forall>j < i. kw1 \<notin> set (clusters st ! j) \<and> kw2 \<notin> set (clusters st ! j))"
    then have f: "findClusterIdx (clusters st) (fst (split_key key)) (snd (split_key key)) = Some i"
      unfolding k findClusterIdx_Some by simp
    have c: "clusters (cluster_pair st key) = (clusters st)[i := set_add (set_add (clusters st ! i) kw1) kw2]"
      using clusters_cluster_pair_found[OF f] unfolding k .
    show "length (clusters (cluster_pair st key)) = length (clusters st)"
      unfolding c by simp
    show "set (clusters (cluster_pair st key) ! i) = {kw1, kw2} \<union> set (clusters st ! i)"
      unfolding c using a by auto
    fix j assume "j < length (clusters st)" "j \<noteq> i"
    then show "clusters (cluster_pair st key) ! j = clusters st ! j"
      unfolding c by simp
  }
  {
    assume "\<forall>c \<in> set (clusters st). kw1 \<notin> set c \<and> kw2 \<notin> set c"
    then have f: "findClusterIdx (clusters st) (fst (split_key key)) (snd (split_key key)) = None"
      unfolding k findClusterIdx_None .
    have "clusters (cluster_pair st key) = clusters st @ [js_set [kw1, kw2]]"
      using clusters_cluster_pair_new[OF f] unfolding k .
    then show "\<exists>c. clusters (cluster_pair st key) = clusters st @ [c] \<and> set c = {kw1, kw2}"
      by (intro exI[of _ "js_set [kw1, kw2]"]) (simp add: js_set_pair)
  }
  show "length (clusters st) \<le> length (clusters (greedy_loop m es st))"
    using greedy_loop_grows[of st m es] by (rule conjunct1)
  show "greedy_loop m es st =
            foldl cluster_pair st (map fst (takeWhile (\<lambda>e. m \<le> count (snd e)) es))"
    by (rule greedy_loop_takeWhile)
  show "foldl cluster_pair st (ks @ [k]) = cluster_pair (foldl cluster_pair st ks) k" for ks k
    by simp
  show "clusterKeywords sd om m =
            clusters (foldl cluster_pair \<lparr>clusters = [], assigned = []\<rparr>
              (map fst (takeWhile (\<lambda>e. m \<le> count (snd e)) (sortedPairs om)))) @
            map (\<lambda>kw. [Some kw])
              (filter (\<lambda>kw. Some kw \<notin> set (assigned
                  (foldl cluster_pair \<lparr>clusters = [], assigned = []\<rparr>
                    (map fst (takeWhile (\<lambda>e. m \<le> count (snd e)) (sortedPairs om))))))
               (map fst sd))"
    by (rule clusterKeywords_fold)
  fix i assume "i < length (clusters st)"
  then show "set (clusters st ! i) \<subseteq> set (clusters (greedy_loop m es st) ! i)"
    using greedy_loop_grows[of st m es] by simp
qed

theorem cluster_pair_first_match_witness:
  "split_key ''b|c'' = (Some ''b'', Some ''c'')
   \<and> clusters two_clusters = [[Some ''a'', Some ''b''], [Some ''c'', Some ''d'']]
   \<and> length (clusters (cluster_pair two_clusters ''b|c'')) = 2
   \<and> set (clusters (cluster_pair two_clusters ''b|c'') ! 0) = {Some ''a'', Some ''b'', Some ''c''}
   \<and> clusters (cluster_pair two_clusters ''b|c'') ! 1 = [Some ''c'', Some ''d'']
   \<and> clusterKeywords bridge_map (calculateUrlOverlap bridge_map) 3 =
        [[Some ''a'', Some ''b'', Some ''c'', Some ''d''], [Some ''c'', Some ''d'']]
   \<and> greedy_loop 3 (sortedPairs (calculateUrlOverlap bridge_map)) \<lparr>clusters = [], assigned = []\<rparr> =
        \<lparr>clusters = [[Some ''a'', Some ''b'', Some ''c'', Some ''d''], [Some ''c'', Some ''d'']],
         assigned = [Some ''a'', Some ''b'', Some ''c'', Some ''d'']\<rparr>"
proof -
  have s: "split_key ''b|c'' = (Some ''b'', Some ''c'')" by (simp add: split_key_def)
  have c: "clusters two_clusters = [[Some ''a'', Some ''b''], [Some ''c'', Some ''d'']]"
    by (simp add: two_clusters_def)
  have h: "0 < length (clusters two_clusters)
      \<and> (Some ''b'' \<in> set (clusters two_clusters ! 0) \<or> Some ''c'' \<in> set (clusters two_clusters ! 0))
      \<and> (\<forall>j < 0. Some ''b'' \<notin> set (clusters two_clusters ! j) \<and> Some ''c'' \<notin> set (clusters two_clusters ! j))"
    by (simp add: c)
  note t = cluster_pair_first_match [where st = two_clusters and m = 3
      and es = "sortedPairs (calculateUrlOverlap bridge_map)" and sd = bridge_map
      and om = "calculateUrlOverlap bridge_map", OF s]
  note u = cluster_pair_first_match [where st = "\<lparr>clusters = [], assigned = []\<rparr>" and m = 3
      and es = "sortedPairs (calculateUrlOverlap bridge_map)" and sd = bridge_map
      and om = "calculateUrlOverlap bridge_map", OF s]
  have r0: "length (clusters (cluster_pair two_clusters ''b|c'')) = length (clusters two_clusters)
            \<and> set (clusters (cluster_pair two_clusters ''b|c'') ! 0) = {Some ''b'', Some ''c''} \<union> set (clusters two_clusters ! 0)
            \<and> (\<forall>j < length (clusters two_clusters). j \<noteq> 0 \<longrightarrow>
                  clusters (cluster_pair two_clusters ''b|c'') ! j = clusters two_clusters ! j)"
    using t [THEN conjunct1, rule_format, OF h] .
  have r: "length (clusters (cluster_pair two_clusters ''b|c'')) = length (clusters two_clusters)"
    "set (clusters (cluster_pair two_clusters ''b|c'') ! 0) = {Some ''b'', Some ''c''} \<union> set (clusters two_clusters ! 0)"
    "\<forall>j < length (clusters two_clusters). j \<noteq> 0 \<longrightarrow>
        clusters (cluster_pair two_clusters ''b|c'') ! j = clusters two_clusters ! j"
    using r0 by simp_all
  have one: "clusters (cluster_pair two_clusters ''b|c'') ! 1 = clusters two_clusters ! 1"
    using r(3) by (simp add: c)
  have ck: "clusterKeywords bridge_map (calculateUrlOverlap bridge_map) 3 =
        [[Some ''a'', Some ''b'', Some ''c'', Some ''d''], [Some ''c'', Some ''d'']]"
    using t [THEN conjunct2, THEN conjunct2, THEN conjunct2, THEN conjunct2, THEN conjunct2,
        THEN conjunct2]
    unfolding bridge_fold bridge_fold_assigned by (simp add: bridge_map_def)
  have gl: "greedy_loop 3 (sortedPairs (calculateUrlOverlap bridge_map)) \<lparr>clusters = [], assigned = []\<rparr> =
        \<lparr>clusters = [[Some ''a'', Some ''b'', Some ''c'', Some ''d''], [Some ''c'', Some ''d'']],
         assigned = [Some ''a'', Some ''b'', Some ''c'', Some ''d'']\<rparr>"
    using u [THEN conjunct2, THEN conjunct2, THEN conjunct2, THEN conjunct2, THEN conjunct1]
    unfolding bridge_overlap
    by (simp add: sortedPairs_def cluster_pair_def split_key_def set_add_def js_set_def Let_def)
  show ?thesis using s c r(1,2) one ck gl by auto
qed

text \<open>
  Claim C3. \<open>clusterKeywords\<close> runs the pair step over the entries sorted by count, largest
  first, entries of equal count in their insertion order, up to but not including the first
  entry below the threshold; the sorted list is a rearrangement of the matrix, the loop's
  result does not depend on anything after that entry, and the default threshold is 3.
  Consequently every member of a cluster of the greedy pass, and of every returned cluster
  with more than one member, comes from a pair whose count reaches the threshold.
\<close>

theorem greedy_order_threshold:
  "(\<forall>i j. i < j \<and> j < length (sortedPairs om) \<longrightarrow>
        count (snd (sortedPairs om ! j)) \<le> count (snd (sortedPairs om ! i)))
   \<and> (\<forall>n. filter (\<lambda>e. count (snd e) = n) (sortedPairs om) = filter (\<lambda>e. count (snd e) = n) om)
   \<and> (\<forall>es1 e es2 st. count (snd e) < m \<and> (\<forall>x \<in> set es1. m \<le> count (snd x)) \<longrightarrow>
        greedy_loop m (es1 @ e # es2) st = foldl cluster_pair st (map fst es1))
   \<and> greedy_pass om m =
        foldl cluster_pair \<lparr>clusters = [], assigned = []\<rparr> (map fst (qualifying om m))
   \<and> qualifying om m = filter (\<lambda>e. m \<le> count (snd e)) (sortedPairs om)
   \<and> (\<forall>c \<in> set (clusterKeywords sd om m). 1 < length c \<longrightarrow>
        (\<forall>x \<in> set c. \<exists>e \<in> set om. m \<le> count (snd e) \<and> x \<in> pair_members (fst e)))
   \<and> (\<forall>c \<in> set (clusterKeywords_default sd om). 1 < length c \<longrightarrow>
        (\<forall>x \<in> set c. \<exists>e \<in> set om. 3 \<le> count (snd e) \<and> x \<in> pair_members (fst e)))
   \<and> clusterKeywords sd om m =
        clusters (foldl cluster_pair \<lparr>clusters = [], assigned = []\<rparr>
          (map fst (takeWhile (\<lambda>e. m \<le> count (snd e)) (sortedPairs om)))) @
        map (\<lambda>kw. [Some kw])
          (filter (\<lambda>kw. Some kw \<notin> set (assigned
              (foldl cluster_pair \<lparr>clusters = [], assigned = []\<rparr>
                (map fst (takeWhile (\<lambda>e. m \<le> count (snd e)) (sortedPairs om))))))
           (map fst sd))
   \<and> clusterKeywords_default sd om = clusterKeywords sd om 3
   \<and> length (sortedPairs om) = length om
   \<and> (\<forall>c \<in> set (clusters (greedy_pass om m)). \<forall>x \<in> set c.
         \<exists>e \<in> set om. m \<le> count (snd e) \<and> x \<in> pair_members (fst e))"
proof (intro conjI allI impI ballI)
  fix i j assume "i < j \<and> j < length (sortedPairs om)"
  then show "count (snd (sortedPairs om ! j)) \<le> count (snd (sortedPairs om ! i))"
    using sortedPairs_descending[of i j om] by simp
next
  fix n show "filter (\<lambda>e. count (snd e) = n) (sortedPairs om) = filter (\<lambda>e. count (snd e) = n) om"
    by (rule sortedPairs_stable)
next
  fix es1 es2 :: "(string \<times> OverlapData) list" and e :: "string \<times> OverlapData"
    and st :: ClusterState
  assume "count (snd e) < m \<and> (\<forall>x \<in> set es1. m \<le> count (snd x))"
  then show "greedy_loop m (es1 @ e # es2) st = foldl cluster_pair st (map fst es1)"
    using greedy_loop_stops[of e m es1 es2 st] by simp
next
  show "greedy_pass om m =
        foldl cluster_pair \<lparr>clusters = [], assigned = []\<rparr> (map fst (qualifying om m))"
    by (rule greedy_pass_fold)
next
  show "qualifying om m = filter (\<lambda>e. m \<le> count (snd e)) (sortedPairs om)"
    by (rule qualifying_filter)
next
  fix c x assume "c \<in> set (clusterKeywords sd om m)" "1 < length c" "x \<in> set c"
  then show "\<exists>e \<in> set om. m \<le> count (snd e) \<and> x \<in> pair_members (fst e)"
    by (rule multi_cluster_origin)
next
  fix c x assume "c \<in> set (clusterKeywords_default sd om)" "1 < length c" "x \<in> set c"
  then show "\<exists>e \<in> set om. 3 \<le> count (snd e) \<and> x \<in> pair_members (fst e)"
    unfolding clusterKeywords_default_def by (rule multi_cluster_origin)
next
  show "clusterKeywords sd om m =
        clusters (foldl cluster_pair \<lparr>clusters = [], assigned = []\<rparr>
          (map fst (takeWhile (\<lambda>e. m \<le> count (snd e)) (sortedPairs om)))) @
        map (\<lambda>kw. [Some kw])
          (filter (\<lambda>kw. Some kw \<notin> set (assigned
              (foldl cluster_pair \<lparr>clusters = [], assigned = []\<rparr>
                (map fst (takeWhile (\<lambda>e. m \<le> count (snd e)) (sortedPairs om))))))
           (map fst sd))"
    by (rule clusterKeywords_fold)
next
  show "clusterKeywords_default sd om = clusterKeywords sd om 3"
    by (rule clusterKeywords_default_def)
next
  show "length (sortedPairs om) = length om" by (simp add: sortedPairs_def)
next
  fix c x assume c: "c \<in> set (clusters (greedy_pass om m))" and x: "x \<in> set c"
  then have "x \<in> set (assigned (greedy_pass om m))" unfolding greedy_pass_union by blast
  then obtain e where "e \<in> set (qualifying om m)" "x \<in> pair_members (fst e)"
    unfolding greedy_pass_assigned by blast
  then show "\<exists>e \<in> set om. m \<le> count (snd e) \<and> x \<in> pair_members (fst e)"
    using set_qualifying by blast
qed

theorem greedy_order_threshold_witness:
  "(1::nat) < 2 \<and> 2 < length (sortedPairs (calculateUrlOverlap bridge_map))
   \<and> count (snd (sortedPairs (calculateUrlOverlap bridge_map) ! 2))
       \<le> count (snd (sortedPairs (calculateUrlOverlap bridge_map) ! 1))
   \<and> map fst (sortedPairs (calculateUrlOverlap bridge_map)) = [''a|b'', ''c|d'', ''b|c'', ''b|d'']
   \<and> clusterKeywords bridge_map (calculateUrlOverlap bridge_map) 3 =
        [[Some ''a'', Some ''b'', Some ''c'', Some ''d''], [Some ''c'', Some ''d'']]
   \<and> clusterKeywords_default bridge_map (calculateUrlOverlap bridge_map) =
        [[Some ''a'', Some ''b'', Some ''c'', Some ''d''], [Some ''c'', Some ''d'']]
   \<and> clusterKeywords bridge_map (calculateUrlOverlap bridge_map) 5 =
        [[Some ''a'', Some ''b''], [Some ''c'', Some ''d'']]
   \<and> [Some ''a'', Some ''b''] \<in> set (clusterKeywords bridge_map (calculateUrlOverlap bridge_map) 5)
   \<and> (\<exists>e \<in> set (calculateUrlOverlap bridge_map).
         5 \<le> count (snd e) \<and> Some ''a'' \<in> pair_members (fst e))
   \<and> greedy_loop 5
        ([(''a|b'', \<lparr>sharedUrls = [], count = 5, overlapScore = 1\<rparr>)]
          @ (''b|c'', \<lparr>sharedUrls = [], count = 4, overlapScore = 1\<rparr>)
          # [(''c|d'', \<lparr>sharedUrls = [], count = 5, overlapScore = 1\<rparr>)])
        \<lparr>clusters = [], assigned = []\<rparr>
       = \<lparr>clusters = [[Some ''a'', Some ''b'']], assigned = [Some ''a'', Some ''b'']\<rparr>"
proof -
  note t = greedy_order_threshold [of "calculateUrlOverlap bridge_map" 5 bridge_map]
  note t3 = greedy_order_threshold [of "calculateUrlOverlap bridge_map" 3 bridge_map]
  have l: "(1::nat) < 2 \<and> 2 < length (sortedPairs (calculateUrlOverlap bridge_map))"
    by (simp add: sortedPairs_def bridge_overlap)
  have o: "count (snd (sortedPairs (calculateUrlOverlap bridge_map) ! 2))
       \<le> count (snd (sortedPairs (calculateUrlOverlap bridge_map) ! 1))"
    using t [THEN conjunct1, rule_format, OF l] .
  have k3: "clusterKeywords bridge_map (calculateUrlOverlap bridge_map) 3 =
        [[Some ''a'', Some ''b'', Some ''c'', Some ''d''], [Some ''c'', Some ''d'']]"
    using t3 [THEN conjunct2, THEN conjunct2, THEN conjunct2, THEN conjunct2, THEN conjunct2,
        THEN conjunct2, THEN conjunct2, THEN conjunct1]
    unfolding bridge_fold bridge_fold_assigned by (simp add: bridge_map_def)
  have kd: "clusterKeywords_default bridge_map (calculateUrlOverlap bridge_map) =
        [[Some ''a'', Some ''b'', Some ''c'', Some ''d''], [Some ''c'', Some ''d'']]"
    using t3 [THEN conjunct2, THEN conjunct2, THEN conjunct2, THEN conjunct2, THEN conjunct2,
        THEN conjunct2, THEN conjunct2, THEN conjunct2, THEN conjunct1] k3
    by simp
  have k5: "clusterKeywords bridge_map (calculateUrlOverlap bridge_map) 5 =
        [[Some ''a'', Some ''b''], [Some ''c'', Some ''d'']]"
    using t [THEN conjunct2, THEN conjunct2, THEN conjunct2, THEN conjunct2, THEN conjunct2,
        THEN conjunct2, THEN conjunct2, THEN conjunct1]
    unfolding bridge_fold5 by (simp add: bridge_map_def)
  have c: "[Some ''a'', Some ''b''] \<in> set (clusterKeywords bridge_map (calculateUrlOverlap bridge_map) 5)"
    unfolding k5 by simp
  have e: "\<exists>e \<in> set (calculateUrlOverlap bridge_map).
         5 \<le> count (snd e) \<and> Some ''a'' \<in> pair_members (fst e)"
    using t [THEN conjunct2, THEN conjunct2, THEN conjunct2, THEN conjunct2, THEN conjunct2,
             THEN conjunct1, rule_format, OF c, of "Some ''a''"]
    by simp
  have h: "count (snd (''b|c'', \<lparr>sharedUrls = [], count = 4, overlapScore = 1\<rparr>)) < 5
      \<and> (\<forall>x \<in> set [(''a|b'', \<lparr>sharedUrls = [], count = 5, overlapScore = 1\<rparr>)]. 5 \<le> count (snd x))"
    by simp
  have g: "greedy_loop 5
        ([(''a|b'', \<lparr>sharedUrls = [], count = 5, overlapScore = 1\<rparr>)]
          @ (''b|c'', \<lparr>sharedUrls = [], count = 4, overlapScore = 1\<rparr>)
          # [(''c|d'', \<lparr>sharedUrls = [], count = 5, overlapScore = 1\<rparr>)])
        \<lparr>clusters = [], assigned = []\<rparr>
       = foldl cluster_pair \<lparr>clusters = [], assigned = []\<rparr>
           (map fst [(''a|b'', \<lparr>sharedUrls = [], count = 5, overlapScore = 1\<rparr>)])"
    using t [THEN conjunct2, THEN conjunct2, THEN conjunct1, rule_format, OF h] .
  have f: "foldl cluster_pair \<lparr>clusters = [], assigned = []\<rparr>
           (map fst [(''a|b'', \<lparr>sharedUrls = [], count = 5, overlapScore = 1\<rparr>)])
        = \<lparr>clusters = [[Some ''a'', Some ''b'']], assigned = [Some ''a'', Some ''b'']\<rparr>"
    by (simp add: cluster_pair_def split_key_def set_add_def js_set_def Let_def)
  show ?thesis using l o bridge_sorted k3 kd k5 c e g f by simp
qed




text \<open>
  Claim C10. The key of an entry is \<open>kw1 | kw2\<close> and is split again at every bar. When no
  keyword of the map contains a bar, every member of every returned cluster, and both keyword
  fields of every row of the overlap file (before CSV quoting), are keywords of the map. For
  some map with a keyword that contains a bar, a returned cluster has a member that is not a
  keyword of the map.
\<close>

theorem separator_in_keyword:
  "(no_bar sd \<longrightarrow>
      (\<forall>c \<in> set (clusterKeywords sd (calculateUrlOverlap sd) m). \<forall>x \<in> set c.
          x \<in> Some ` set (map fst sd))
      \<and> (\<forall>r \<in> set (saveOverlapMatrix_keywords (calculateUrlOverlap sd)).
          \<exists>k1 \<in> set (map fst sd). \<exists>k2 \<in> set (map fst sd).
             r = (escapeCSV (Some k1), escapeCSV (Some k2))))
   \<and> (\<exists>sd' c x. distinct (map fst sd') \<and> \<not> no_bar sd'
        \<and> c \<in> set (clusterKeywords sd' (calculateUrlOverlap sd') 3)
        \<and> x \<in> set c \<and> x \<notin> Some ` set (map fst sd'))"
proof (intro conjI impI ballI)
  fix c x assume "no_bar sd" "c \<in> set (clusterKeywords sd (calculateUrlOverlap sd) m)" "x \<in> set c"
  then show "x \<in> Some ` set (map fst sd)" by (rule clusterKeywords_members)
next
  fix r assume "no_bar sd" "r \<in> set (saveOverlapMatrix_keywords (calculateUrlOverlap sd))"
  then show "\<exists>k1 \<in> set (map fst sd). \<exists>k2 \<in> set (map fst sd).
             r = (escapeCSV (Some k1), escapeCSV (Some k2))"
    by (rule saveOverlapMatrix_keywords_mem)
next
  have "\<not> no_bar bar_map" by (simp add: no_bar_def bar_map_def)
  with bar_map_foreign
  show "\<exists>sd' c x. distinct (map fst sd') \<and> \<not> no_bar sd'
        \<and> c \<in> set (clusterKeywords sd' (calculateUrlOverlap sd') 3)
        \<and> x \<in> set c \<and> x \<notin> Some ` set (map fst sd')"
    by (intro exI[of _ bar_map] exI[of _ "[Some ''a'', Some ''b'']"] exI[of _ "Some ''a''"]) blast
qed

theorem separator_in_keyword_witness:
  "no_bar bridge_map
   \<and> [Some ''c'', Some ''d''] \<in> set (clusterKeywords bridge_map (calculateUrlOverlap bridge_map) 3)
   \<and> Some ''d'' \<in> Some ` set (map fst bridge_map)
   \<and> (''b'', ''c'') \<in> set (saveOverlapMatrix_keywords (calculateUrlOverlap bridge_map))
   \<and> (\<exists>k1 \<in> set (map fst bridge_map). \<exists>k2 \<in> set (map fst bridge_map).
         (''b'', ''c'') = (escapeCSV (Some k1), escapeCSV (Some k2)))"
proof -
  note t = separator_in_keyword [of bridge_map 3]
  have n: "no_bar bridge_map" by (simp add: no_bar_def bridge_map_def)
  have c: "[Some ''c'', Some ''d''] \<in> set (clusterKeywords bridge_map (calculateUrlOverlap bridge_map) 3)"
    unfolding bridge_clusters by simp
  have x: "Some ''d'' \<in> set [Some ''c'', Some ''d'']" by simp
  have r: "(''b'', ''c'') \<in> set (saveOverlapMatrix_keywords (calculateUrlOverlap bridge_map))"
    unfolding bridge_overlap
    by (simp add: saveOverlapMatrix_keywords_def split_key_def escapeCSV_def to_String_def)
  have m: "Some ''d'' \<in> Some ` set (map fst bridge_map)"
    using t [THEN conjunct1, rule_format, OF n, THEN conjunct1, rule_format, OF c x] .
  have k: "\<exists>k1 \<in> set (map fst bridge_map). \<exists>k2 \<in> set (map fst bridge_map).
         (''b'', ''c'') = (escapeCSV (Some k1), escapeCSV (Some k2))"
    using t [THEN conjunct1, rule_format, OF n, THEN conjunct2, rule_format, OF r] .
  show ?thesis using n c m r k by (intro conjI)
qed

section \<open>Overlap scores\<close>

lemma shared_le_min:
  "length (filter (\<lambda>u. u \<in> set ys) (js_set xs)) \<le> min (card (set xs)) (card (set ys))"
proof -
  let ?sh = "filter (\<lambda>u. u \<in> set ys) (js_set xs)"
  have d: "distinct ?sh" by simp
  have "set ?sh \<subseteq> set xs" "set ?sh \<subseteq> set ys" by auto
  then have "card (set ?sh) \<le> card (set xs)" "card (set ?sh) \<le> card (set ys)"
    by (simp_all add: card_mono)
  then show ?thesis using distinct_card[OF d] by simp
qed

lemma score_range:
  assumes "e \<in> set (calculateUrlOverlap sd)"
  shows "1 \<le> count (snd e) \<and> 0 < overlapScore (snd e) \<and> overlapScore (snd e) \<le> 1"
proof -
  obtain k1 k2 where k:
      "sharedUrls (snd e) = filter (\<lambda>u. u \<in> set (get_urls sd k2)) (js_set (get_urls sd k1))"
      "sharedUrls (snd e) \<noteq> []"
      "count (snd e) = int (length (sharedUrls (snd e)))"
      "overlapScore (snd e) = double_div (length (sharedUrls (snd e)))
         (min (card (set (get_urls sd k1))) (card (set (get_urls sd k2))))"
    using calculateUrlOverlap_entry[OF assms] by blast
  let ?sh = "sharedUrls (snd e)"
  let ?n = "min (card (set (get_urls sd k1))) (card (set (get_urls sd k2)))"
  have pos: "0 < length ?sh" using k(2) by simp
  have le: "length ?sh \<le> ?n" unfolding k(1) by (rule shared_le_min)
  have "1 \<le> length ?sh" using k(2) by (cases ?sh) simp_all
  then have c1: "1 \<le> count (snd e)" by (simp add: k(3))
  have n0: "0 < ?n" using pos le by linarith
  have "0 < overlapScore (snd e)" unfolding k(4) using pos le by (rule double_div_pos)
  moreover have "overlapScore (snd e) \<le> 1" unfolding k(4) using n0 le by (rule double_div_le_1)
  ultimately show ?thesis using c1 by simp
qed

lemma shared_count_card:
  "length (filter (\<lambda>u. u \<in> set ys) (js_set xs)) = card (set xs \<inter> set ys)"
proof -
  have "distinct (filter (\<lambda>u. u \<in> set ys) (js_set xs))" by simp
  then have "length (filter (\<lambda>u. u \<in> set ys) (js_set xs)) = card (set (filter (\<lambda>u. u \<in> set ys) (js_set xs)))"
    by (simp only: distinct_card)
  also have "set (filter (\<lambda>u. u \<in> set ys) (js_set xs)) = set xs \<inter> set ys" by auto
  finally show ?thesis .
qed

section \<open>The loader\<close>

lemma map_push_keys [simp]: "map fst (map_push m k u) = map fst m"
  by (induction m) (auto simp: map_push_def)

lemma map_set_keys: "map fst (map_set m k v) = (if k \<in> set (map fst m) then map fst m else map fst m @ [k])"
  by (induction m) force+

lemma map_push_key_set [simp]: "fst ` set (map_push m k u) = fst ` set m"
  using map_push_keys[of m k u] by (metis set_map)

lemma map_set_key_set [simp]: "fst ` set (map_set m k v) = insert k (fst ` set m)"
proof -
  have "set (map fst (map_set m k v)) = insert k (set (map fst m))"
    unfolding map_set_keys by auto
  then show ?thesis by (simp only: set_map)
qed

lemma map_of_map_push:
  "map_of (map_push m k u) x = (if x = k then map_option (\<lambda>us. us @ [u]) (map_of m k) else map_of m x)"
  by (induction m) (auto simp: map_push_def)

lemma map_of_map_set: "map_of (map_set m k v) = (map_of m)(k \<mapsto> v)"
  by (induction m) auto

lemma js_set_snoc: "js_set (xs @ [x]) = (if x \<in> set xs then js_set xs else js_set xs @ [x])"
  by (simp add: js_set_def)

lemma load_row_excluded: "\<not> row_included r \<Longrightarrow> load_row sd r = sd"
  by (auto simp: load_row_def row_included_def Let_def split: option.splits)

lemma load_row_included:
  "row_included r \<Longrightarrow> load_row sd r =
     map_push (if \<not> map_has sd (trim (keyword r)) then map_set sd (trim (keyword r)) [] else sd)
        (trim (keyword r)) (trim (url r))"
  by (auto simp: load_row_def row_included_def Let_def split: option.splits)

lemma loadSerpData_snoc: "loadSerpData (rows @ [r]) = load_row (loadSerpData rows) r"
  by (simp add: loadSerpData_def)

lemma loadSerpData_keys:
  "map fst (loadSerpData rows) = js_set (map (\<lambda>r. trim (keyword r)) (filter row_included rows))"
proof (induction rows rule: rev_induct)
  case Nil
  then show ?case by (simp add: loadSerpData_def js_set_def)
next
  case (snoc r rows)
  show ?case
  proof (cases "row_included r")
    case False
    then show ?thesis using snoc by (simp add: loadSerpData_snoc load_row_excluded)
  next
    case True
    have "set (map fst (loadSerpData rows)) = set (js_set (map (\<lambda>r. trim (keyword r)) (filter row_included rows)))"
      by (simp only: snoc)
    then have "fst ` set (loadSerpData rows) = (\<lambda>x. trim (keyword x)) ` {x \<in> set rows. row_included x}"
      by simp
    then show ?thesis using True snoc
      by (simp add: loadSerpData_snoc load_row_included map_set_keys map_has_def js_set_snoc)
  qed
qed

lemma loadSerpData_lookup:
  "map_of (loadSerpData rows) kw =
     (if kw \<in> fst ` set (loadSerpData rows) then Some (urls_of rows kw) else None)"
proof (induction rows arbitrary: kw rule: rev_induct)
  case Nil
  then show ?case by (simp add: loadSerpData_def)
next
  case (snoc r rows)
  show ?case
  proof (cases "row_included r")
    case False
    then show ?thesis using snoc
      by (simp add: loadSerpData_snoc load_row_excluded urls_of_def)
  next
    case True
    let ?k = "trim (keyword r)"
    let ?u = "trim (url r)"
    let ?sd = "loadSerpData rows"
    have u: "urls_of (rows @ [r]) x = (if x = ?k then urls_of rows x @ [?u] else urls_of rows x)" for x
      using True by (auto simp: urls_of_def)
    have keys: "fst ` set ?sd = (\<lambda>x. trim (keyword x)) ` {x \<in> set rows. row_included x}"
      using loadSerpData_keys[of rows, THEN arg_cong, of set] by simp
    have e: "urls_of rows ?k = []" if "?k \<notin> fst ` set ?sd"
    proof -
      from that have "\<forall>x \<in> set rows. \<not> (row_included x \<and> trim (keyword x) = ?k)"
        unfolding keys by (auto simp: image_iff)
      then show ?thesis by (simp add: urls_of_def filter_empty_conv)
    qed
    show ?thesis
    proof (cases "?k \<in> fst ` set ?sd")
      case h: True
      then have l: "loadSerpData (rows @ [r]) = map_push ?sd ?k ?u"
        using True by (simp add: loadSerpData_snoc load_row_included map_has_def)
      have ks: "fst ` set (loadSerpData (rows @ [r])) = fst ` set ?sd"
        unfolding l by simp
      show ?thesis
      proof (cases "kw = ?k")
        case True
        then show ?thesis unfolding ks unfolding l using h snoc[of ?k]
          by (simp add: map_of_map_push u)
      next
        case False
        then show ?thesis unfolding ks unfolding l using snoc[of kw]
          by (simp add: map_of_map_push u)
      qed
    next
      case h: False
      then have l: "loadSerpData (rows @ [r]) = map_push (map_set ?sd ?k []) ?k ?u"
        using True by (simp add: loadSerpData_snoc load_row_included map_has_def)
      have ks: "fst ` set (loadSerpData (rows @ [r])) = insert ?k (fst ` set ?sd)"
        unfolding l by simp
      show ?thesis
      proof (cases "kw = ?k")
        case True
        then show ?thesis unfolding ks unfolding l using e[OF h]
          by (simp add: map_of_map_push map_of_map_set u)
      next
        case False
        then show ?thesis unfolding ks unfolding l using snoc[of kw]
          by (simp add: map_of_map_push map_of_map_set u)
      qed
    qed
  qed
qed

lemma urls_of_nonempty:
  assumes "kw \<in> set (map fst (loadSerpData rows))" shows "urls_of rows kw \<noteq> []"
proof -
  from assms obtain r where "r \<in> set rows" "row_included r" "trim (keyword r) = kw"
    unfolding loadSerpData_keys by auto
  then show ?thesis by (auto simp: urls_of_def filter_empty_conv)
qed

lemma loadSerpData_entry_nonempty:
  assumes "(kw, us) \<in> set (loadSerpData rows)" shows "us \<noteq> []"
proof -
  have d: "distinct (map fst (loadSerpData rows))" unfolding loadSerpData_keys by simp
  have m: "map_of (loadSerpData rows) kw = Some us" using assms d by simp
  have k: "kw \<in> fst ` set (loadSerpData rows)" using assms by force
  have "us = urls_of rows kw" using m k by (simp add: loadSerpData_lookup)
  moreover have "kw \<in> set (map fst (loadSerpData rows))" using k by simp
  ultimately show ?thesis using urls_of_nonempty[of kw rows] by simp
qed

lemma trim_no_outer_space:
  "trim s \<noteq> [] \<Longrightarrow> \<not> is_js_space (hd (trim s)) \<and> \<not> is_js_space (last (trim s))"
proof -
  assume a: "trim s \<noteq> []"
  let ?t = "dropWhile is_js_space s"
  let ?r = "dropWhile is_js_space (rev ?t)"
  have r: "?r \<noteq> []" using a by (simp add: trim_def)
  then have "\<not> is_js_space (hd ?r)" by (rule hd_dropWhile)
  then have l: "\<not> is_js_space (last (trim s))" using r by (simp add: trim_def last_rev)
  have t: "?t \<noteq> []"
  proof
    assume e: "?t = []"
    have "?r = []" unfolding e by simp
    with r show False ..
  qed
  then have h: "\<not> is_js_space (hd ?t)" by (rule hd_dropWhile)
  have "\<exists>ws. rev ?t = ws @ ?r" by (metis takeWhile_dropWhile_id)
  then obtain ws where "rev ?t = ws @ ?r" by blast
  then have "?t = rev ?r @ rev ws" by (metis rev_append rev_rev_ident)
  then have "hd ?t = hd (rev ?r)" using r by (metis hd_append2 rev_is_Nil_conv)
  then have "\<not> is_js_space (hd (trim s))" using h by (simp add: trim_def)
  with l show ?thesis by simp
qed

lemma dropWhile_id: "xs = [] \<or> \<not> P (hd xs) \<Longrightarrow> dropWhile P xs = xs"
  by (cases xs) auto

lemma trim_decomp:
  "\<exists>a b. s = a @ trim s @ b \<and> (\<forall>c \<in> set a. is_js_space c) \<and> (\<forall>c \<in> set b. is_js_space c)"
proof -
  let ?P = is_js_space
  let ?t = "dropWhile ?P s"
  have 1: "s = takeWhile ?P s @ ?t" by simp
  have "?t = rev (dropWhile ?P (rev ?t)) @ rev (takeWhile ?P (rev ?t))"
    by (metis rev_append rev_rev_ident takeWhile_dropWhile_id)
  then have 2: "?t = trim s @ rev (takeWhile ?P (rev ?t))"
    by (simp only: trim_def)
  have 3: "s = takeWhile ?P s @ trim s @ rev (takeWhile ?P (rev ?t))"
    using 1 2 by (metis)
  have 4: "\<forall>c \<in> set (takeWhile ?P s). ?P c" by (auto dest: set_takeWhileD)
  have 5: "\<forall>c \<in> set (rev (takeWhile ?P (rev ?t))). ?P c" by (auto dest: set_takeWhileD)
  from 3 4 5 show ?thesis by blast
qed

lemma sample_parse:
  "parseInt10 ''1'' = Some 1" "parseInt10 ''11'' = Some 11" "parseInt10 ''x'' = None"
  "parseInt10 '' -3rd'' = Some (- 3)"
  by (simp_all add: parseInt10_def is_js_space_def is_digit_def digit_val_def Let_def)

lemma sample_trim: "trim '' a '' = ''a''" "trim ''a'' = ''a''" "trim ''b'' = ''b''" "trim ''c'' = ''c''"
  "trim ''u1'' = ''u1''" "trim ''u3 '' = ''u3''" "trim ''u4'' = ''u4''"
  by (simp_all add: trim_def is_js_space_def)

lemma sample_load: "loadSerpData sample_rows = [(''a'', [''u1'', ''u3'']), (''c'', [''u4''])]"
  by (simp add: loadSerpData_def sample_rows_def load_row_def sample_parse sample_trim
      map_has_def map_push_def Let_def)

lemma trim_suffix:
  "dropWhile is_js_space s = trim s @ rev (takeWhile is_js_space (rev (dropWhile is_js_space s)))"
proof -
  let ?P = is_js_space
  let ?t = "dropWhile ?P s"
  have "?t = rev (dropWhile ?P (rev ?t)) @ rev (takeWhile ?P (rev ?t))"
    by (metis rev_append rev_rev_ident takeWhile_dropWhile_id)
  then show ?thesis by (simp only: trim_def)
qed

lemma digit_not_space: "is_digit c \<Longrightarrow> \<not> is_js_space c"
  by (auto simp: is_digit_def is_js_space_def)

lemma takeWhile_digit_append:
  "\<forall>c \<in> set w. is_js_space c \<Longrightarrow> takeWhile is_digit (xs @ w) = takeWhile is_digit xs"
proof (induction xs)
  case Nil
  then show ?case by (cases w) (auto dest: digit_not_space)
next
  case (Cons x xs)
  then show ?case by simp
qed

lemma parseInt10_trim: "parseInt10 (trim s) = parseInt10 s"
proof -
  let ?P = is_js_space
  let ?S = "dropWhile ?P s"
  let ?T = "trim s"
  define w where "w = rev (takeWhile ?P (rev ?S))"
  have a: "?S = ?T @ w" unfolding w_def by (rule trim_suffix)
  have w: "\<forall>c \<in> set w. ?P c" unfolding w_def by (auto dest: set_takeWhileD)
  have b: "dropWhile ?P ?T = ?T"
    using trim_no_outer_space[of s] by (intro dropWhile_id) blast
  have c: "w = []" if "?T = []"
  proof (rule ccontr)
    assume n: "w \<noteq> []"
    then have "?S \<noteq> []" using a by simp
    then have "\<not> ?P (hd ?S)" by (rule hd_dropWhile)
    moreover have "hd ?S = hd w" using a that by simp
    moreover have "hd w \<in> set w" using n by simp
    ultimately show False using w by simp
  qed
  show ?thesis
  proof (cases ?T)
    case Nil
    then have "?S = ?T" using a c by simp
    then show ?thesis unfolding parseInt10_def[of s] parseInt10_def[of ?T] b by simp
  next
    case (Cons x xs)
    then have S: "?S = x # (xs @ w)" using a by simp
    have d: "takeWhile is_digit (xs @ w) = takeWhile is_digit xs"
      "takeWhile is_digit (x # xs @ w) = takeWhile is_digit (x # xs)"
      using takeWhile_digit_append[OF w, of xs] takeWhile_digit_append[OF w, of "x # xs"] by simp_all
    show ?thesis
      unfolding parseInt10_def[of s] parseInt10_def[of ?T] b unfolding S Cons
      using d by (simp add: Let_def)
  qed
qed

lemma double_div_rounded:
  assumes "0 < a \<and> a \<le> b"
  shows "\<exists>m k. double_div a b = of_nat m / 2 ^ (k + 52) \<and> 2 ^ 52 \<le> m \<and> m \<le> 2 ^ 53
           \<and> 2 * (m * b) \<le> 2 * (a * 2 ^ (k + 52)) + b
           \<and> 2 * (a * 2 ^ (k + 52)) \<le> 2 * (m * b) + b"
proof -
  have a: "0 < a" "a \<le> b" and b: "0 < b" using assms by simp_all
  let ?k = "scale2 a b"
  let ?m = "nearest_even (a * 2 ^ (?k + 52)) b"
  have "double_div a b = of_nat ?m / 2 ^ (?k + 52)" by (simp add: double_div_def Let_def)
  moreover have "2 ^ 52 \<le> ?m \<and> ?m \<le> 2 ^ 53" using a by (rule double_div_mantissa)
  moreover have "2 * (?m * b) \<le> 2 * (a * 2 ^ (?k + 52)) + b
      \<and> 2 * (a * 2 ^ (?k + 52)) \<le> 2 * (?m * b) + b"
    using b by (rule nearest_even_near)
  ultimately show ?thesis by blast
qed

text \<open>
  Claim C6. Every entry of the overlap matrix has a count of at least 1 and a non-empty list
  of shared URLs; it belongs to a pair of keywords of the map, its count is the number of
  URLs the two keywords share, and its score is that count divided by the smaller of the two
  numbers of distinct URLs, as the program divides: the binary64 number nearest to the
  exact quotient (a 53-bit significand, at most half a unit in the last place away, hence
  within the fraction \<open>2^-53\<close> of the exact quotient, and 1 when the two numbers are equal).
  The score is above 0 and at most 1. Every keyword that the loader puts into the map has at
  least one URL.
\<close>

theorem overlap_entries_positive:
  "(\<forall>e \<in> set (calculateUrlOverlap sd).
      1 \<le> count (snd e) \<and> sharedUrls (snd e) \<noteq> []
      \<and> (\<exists>k1 k2. (k1, k2) \<in> set (combinations (map fst sd)) \<and> fst e = pair_key k1 k2
            \<and> sharedUrls (snd e) =
                filter (\<lambda>u. u \<in> set (get_urls sd k2)) (js_set (get_urls sd k1))
            \<and> count (snd e) = int (card (set (get_urls sd k1) \<inter> set (get_urls sd k2)))
            \<and> overlapScore (snd e) =
                double_div (nat (count (snd e)))
                  (min (card (set (get_urls sd k1))) (card (set (get_urls sd k2))))
            \<and> \<bar>overlapScore (snd e) -
                 of_int (count (snd e)) /
                 of_nat (min (card (set (get_urls sd k1))) (card (set (get_urls sd k2))))\<bar>
               \<le> of_int (count (snd e)) /
                 of_nat (min (card (set (get_urls sd k1))) (card (set (get_urls sd k2)))) / 2 ^ 53
            \<and> (count (snd e) =
                 int (min (card (set (get_urls sd k1))) (card (set (get_urls sd k2))))
               \<longrightarrow> overlapScore (snd e) = 1))
      \<and> 0 < overlapScore (snd e) \<and> overlapScore (snd e) \<le> 1)
   \<and> (\<forall>a b. 0 < a \<and> a \<le> b \<longrightarrow>
        (\<exists>m k. double_div a b = of_nat m / 2 ^ (k + 52) \<and> 2 ^ 52 \<le> m \<and> m \<le> 2 ^ 53
           \<and> 2 * (m * b) \<le> 2 * (a * 2 ^ (k + 52)) + b
           \<and> 2 * (a * 2 ^ (k + 52)) \<le> 2 * (m * b) + b))
   \<and> (\<forall>p \<in> set (loadSerpData rows). snd p \<noteq> [])"
proof (intro conjI ballI allI impI)
  fix e assume e: "e \<in> set (calculateUrlOverlap sd)"
  show "1 \<le> count (snd e)" "0 < overlapScore (snd e)" "overlapScore (snd e) \<le> 1"
    using score_range[OF e] by simp_all
  obtain k1 k2 where k: "(k1, k2) \<in> set (combinations (map fst sd))" "fst e = pair_key k1 k2"
      "sharedUrls (snd e) = filter (\<lambda>u. u \<in> set (get_urls sd k2)) (js_set (get_urls sd k1))"
      "sharedUrls (snd e) \<noteq> []"
      "count (snd e) = int (length (sharedUrls (snd e)))"
      "overlapScore (snd e) = double_div (length (sharedUrls (snd e)))
         (min (card (set (get_urls sd k1))) (card (set (get_urls sd k2))))"
    using calculateUrlOverlap_entry[OF e] by blast
  show "sharedUrls (snd e) \<noteq> []" by (rule k(4))
  let ?a = "length (sharedUrls (snd e))"
  let ?n = "min (card (set (get_urls sd k1))) (card (set (get_urls sd k2)))"
  have pos: "0 < ?a" using k(4) by simp
  have le: "?a \<le> ?n" unfolding k(3) by (rule shared_le_min)
  have c: "count (snd e) = int (card (set (get_urls sd k1) \<inter> set (get_urls sd k2)))"
    unfolding k(5) k(3) shared_count_card ..
  have s: "overlapScore (snd e) = double_div (nat (count (snd e))) ?n"
    unfolding k(5) using k(6) by simp
  have "\<bar>double_div ?a ?n - of_nat ?a / of_nat ?n\<bar> \<le> (of_nat ?a / of_nat ?n) / 2 ^ 53"
    using pos le by (rule double_div_error)
  then have r: "\<bar>overlapScore (snd e) - of_int (count (snd e)) / of_nat ?n\<bar>
      \<le> of_int (count (snd e)) / of_nat ?n / 2 ^ 53"
    unfolding k(5) k(6) by simp
  have x: "count (snd e) = int ?n \<longrightarrow> overlapScore (snd e) = 1"
  proof
    assume "count (snd e) = int ?n"
    then have "?a = ?n" using k(5) by simp
    then show "overlapScore (snd e) = 1" using pos k(6) by (simp add: double_div_self)
  qed
  from k(1,2,3) c s r x
  show "\<exists>k1 k2. (k1, k2) \<in> set (combinations (map fst sd)) \<and> fst e = pair_key k1 k2
            \<and> sharedUrls (snd e) =
                filter (\<lambda>u. u \<in> set (get_urls sd k2)) (js_set (get_urls sd k1))
            \<and> count (snd e) = int (card (set (get_urls sd k1) \<inter> set (get_urls sd k2)))
            \<and> overlapScore (snd e) =
                double_div (nat (count (snd e)))
                  (min (card (set (get_urls sd k1))) (card (set (get_urls sd k2))))
            \<and> \<bar>overlapScore (snd e) -
                 of_int (count (snd e)) /
                 of_nat (min (card (set (get_urls sd k1))) (card (set (get_urls sd k2))))\<bar>
               \<le> of_int (count (snd e)) /
                 of_nat (min (card (set (get_urls sd k1))) (card (set (get_urls sd k2)))) / 2 ^ 53
            \<and> (count (snd e) =
                 int (min (card (set (get_urls sd k1))) (card (set (get_urls sd k2))))
               \<longrightarrow> overlapScore (snd e) = 1)"
    by (intro exI[of _ k1] exI[of _ k2] conjI)
next
  fix a b :: nat assume "0 < a \<and> a \<le> b"
  then show "\<exists>m k. double_div a b = of_nat m / 2 ^ (k + 52) \<and> 2 ^ 52 \<le> m \<and> m \<le> 2 ^ 53
           \<and> 2 * (m * b) \<le> 2 * (a * 2 ^ (k + 52)) + b
           \<and> 2 * (a * 2 ^ (k + 52)) \<le> 2 * (m * b) + b"
    by (rule double_div_rounded)
next
  fix p assume "p \<in> set (loadSerpData rows)"
  then have "(fst p, snd p) \<in> set (loadSerpData rows)" by simp
  then show "snd p \<noteq> []" by (rule loadSerpData_entry_nonempty)
qed

theorem overlap_entries_positive_witness:
  "(''b|c'', \<lparr>sharedUrls = [''q1'', ''q2'', ''q3'', ''q4''], count = 4,
        overlapScore = 3602879701896397 / 4503599627370496\<rparr>)
      \<in> set (calculateUrlOverlap bridge_map)
   \<and> (1::int) \<le> 4
   \<and> (0::rat) < 3602879701896397 / 4503599627370496
   \<and> (3602879701896397 / 4503599627370496 :: rat) \<le> 1
   \<and> (''c|d'', \<lparr>sharedUrls = [''q1'', ''q2'', ''q3'', ''q4'', ''q5''], count = 5,
        overlapScore = 1\<rparr>)
      \<in> set (calculateUrlOverlap bridge_map)
   \<and> (''a'', [''u1'', ''u3'']) \<in> set (loadSerpData sample_rows)
   \<and> [''u1'', ''u3''] \<noteq> []"
proof -
  let ?e = "(''b|c'', \<lparr>sharedUrls = [''q1'', ''q2'', ''q3'', ''q4''], count = 4,
        overlapScore = 3602879701896397 / 4503599627370496\<rparr>)"
  let ?f = "(''c|d'', \<lparr>sharedUrls = [''q1'', ''q2'', ''q3'', ''q4'', ''q5''], count = 5,
        overlapScore = 1\<rparr>)"
  note t = overlap_entries_positive [of bridge_map sample_rows]
  have m: "?e \<in> set (calculateUrlOverlap bridge_map)"
    unfolding bridge_overlap by simp
  have f: "?f \<in> set (calculateUrlOverlap bridge_map)"
    unfolding bridge_overlap by simp
  have "1 \<le> count (snd ?e) \<and> 0 < overlapScore (snd ?e) \<and> overlapScore (snd ?e) \<le> 1"
    using t [THEN conjunct1, rule_format, OF m] by blast
  then have r: "(1::int) \<le> 4 \<and> (0::rat) < 3602879701896397 / 4503599627370496
      \<and> (3602879701896397 / 4503599627370496 :: rat) \<le> 1"
    by simp
  have l: "(''a'', [''u1'', ''u3'']) \<in> set (loadSerpData sample_rows)"
    unfolding sample_load by simp
  have "snd (''a'', [''u1'', ''u3'']) \<noteq> []"
    using t [THEN conjunct2, THEN conjunct2, rule_format, OF l] .
  then have "[''u1'', ''u3''] \<noteq> []" by simp
  with m f r l show ?thesis by simp
qed

text \<open>
  Claim C7. The loader returns the empty map for no rows. Its keys are the trimmed keywords
  of the kept rows, in the order of their first occurrence, and each key is mapped to the
  trimmed URLs of its kept rows in row order, where a row is kept when its position fails to
  parse or parses to at most 10 (trimming the position changes nothing); any other row
  leaves the map unchanged. A trimmed value is the value without its leading and trailing
  white space.
\<close>

theorem loadSerpData_rows:
  "loadSerpData [] = []
   \<and> map fst (loadSerpData rows) =
       js_set (map (\<lambda>r. trim (keyword r)) (filter row_included rows))
   \<and> distinct (map fst (loadSerpData rows))
   \<and> (\<forall>kw. map_of (loadSerpData rows) kw =
         (if kw \<in> set (map (\<lambda>r. trim (keyword r)) (filter row_included rows))
          then Some (urls_of rows kw) else None))
   \<and> (\<forall>r. \<not> row_included r \<longrightarrow> load_row sd r = sd)
   \<and> (\<forall>s. parseInt10 (trim s) = parseInt10 s)
   \<and> (\<forall>s. trim s \<noteq> [] \<longrightarrow> \<not> is_js_space (hd (trim s)) \<and> \<not> is_js_space (last (trim s)))
   \<and> (\<forall>s. \<exists>a b. s = a @ trim s @ b \<and> (\<forall>c \<in> set a. is_js_space c) \<and> (\<forall>c \<in> set b. is_js_space c))"
proof (intro conjI allI impI)
  show "loadSerpData [] = []" by (simp add: loadSerpData_def)
  show k: "map fst (loadSerpData rows) =
       js_set (map (\<lambda>r. trim (keyword r)) (filter row_included rows))"
    by (rule loadSerpData_keys)
  show "distinct (map fst (loadSerpData rows))" unfolding k by simp
  show "map_of (loadSerpData rows) kw =
         (if kw \<in> set (map (\<lambda>r. trim (keyword r)) (filter row_included rows))
          then Some (urls_of rows kw) else None)" for kw
  proof -
    have "fst ` set (loadSerpData rows) = set (map (\<lambda>r. trim (keyword r)) (filter row_included rows))"
      using k[THEN arg_cong, of set] by simp
    then show ?thesis using loadSerpData_lookup[of rows kw] by simp
  qed
  show "load_row sd r = sd" if "\<not> row_included r" for r
    using that by (rule load_row_excluded)
  show "parseInt10 (trim s) = parseInt10 s" for s by (rule parseInt10_trim)
  show "\<not> is_js_space (hd (trim s))" if "trim s \<noteq> []" for s
    using trim_no_outer_space[OF that] by simp
  show "\<not> is_js_space (last (trim s))" if "trim s \<noteq> []" for s
    using trim_no_outer_space[OF that] by simp
  show "\<exists>a b. s = a @ trim s @ b \<and> (\<forall>c \<in> set a. is_js_space c) \<and> (\<forall>c \<in> set b. is_js_space c)" for s
    by (rule trim_decomp)
qed

theorem loadSerpData_rows_witness:
  "loadSerpData sample_rows = [(''a'', [''u1'', ''u3'']), (''c'', [''u4''])]
   \<and> map fst (loadSerpData sample_rows) = [''a'', ''c'']
   \<and> map_of (loadSerpData sample_rows) ''a'' = Some [''u1'', ''u3'']
   \<and> map_of (loadSerpData sample_rows) ''b'' = None
   \<and> \<not> row_included \<lparr>keyword = ''b'', position = ''11'', url = ''u2''\<rparr>
   \<and> row_included \<lparr>keyword = ''a'', position = ''x'', url = ''u3 ''\<rparr>
   \<and> load_row [] \<lparr>keyword = ''b'', position = ''11'', url = ''u2''\<rparr> = []
   \<and> trim '' a '' = ''a'' \<and> \<not> is_js_space (hd (trim '' a ''))"
proof -
  note t = loadSerpData_rows [of sample_rows "[]"]
  have inc: "filter row_included sample_rows =
      [\<lparr>keyword = '' a '', position = ''1'', url = ''u1''\<rparr>,
       \<lparr>keyword = ''a'', position = ''x'', url = ''u3 ''\<rparr>,
       \<lparr>keyword = ''c'', position = '' -3rd'', url = ''u4''\<rparr>]"
    by (simp add: sample_rows_def row_included_def sample_parse)
  have k: "map fst (loadSerpData sample_rows) = [''a'', ''c'']"
    using t [THEN conjunct2, THEN conjunct1] unfolding inc
    by (simp add: sample_trim js_set_def)
  have ma: "map_of (loadSerpData sample_rows) ''a'' = Some [''u1'', ''u3'']"
    using t [THEN conjunct2, THEN conjunct2, THEN conjunct2, THEN conjunct1, rule_format, of "''a''"]
    unfolding inc
    by (simp add: sample_trim urls_of_def sample_rows_def row_included_def sample_parse)
  have mb: "map_of (loadSerpData sample_rows) ''b'' = None"
    using t [THEN conjunct2, THEN conjunct2, THEN conjunct2, THEN conjunct1, rule_format, of "''b''"]
    unfolding inc
    by (simp add: sample_trim)
  have nb: "\<not> row_included \<lparr>keyword = ''b'', position = ''11'', url = ''u2''\<rparr>"
    by (simp add: row_included_def sample_parse)
  have ia: "row_included \<lparr>keyword = ''a'', position = ''x'', url = ''u3 ''\<rparr>"
    by (simp add: row_included_def sample_parse)
  have lb: "load_row [] \<lparr>keyword = ''b'', position = ''11'', url = ''u2''\<rparr> = []"
    using t [THEN conjunct2, THEN conjunct2, THEN conjunct2, THEN conjunct2, THEN conjunct1,
             rule_format, OF nb] .
  have tn: "trim '' a '' \<noteq> []" by (simp add: sample_trim)
  have th: "\<not> is_js_space (hd (trim '' a ''))"
    using t [THEN conjunct2, THEN conjunct2, THEN conjunct2, THEN conjunct2, THEN conjunct2,
             THEN conjunct2, THEN conjunct1, rule_format, OF tn] by simp
  show ?thesis using sample_load k ma mb nb ia lb th by (simp add: sample_trim)
qed

end
